theory Spec2Isabelle
  imports Main "HOL-Library.Multiset"
begin

unbundle bit_operations_syntax

section \<open>Data shared by the two solvers\<close>

text \<open>
  The repository holds the same sliding-block solver twice: an OCaml program whose moves
  carry a distance (\<open>findBlockMoves\<close>, \<open>solveBoard\<close>) and a C++11 program whose moves are
  single-tile steps (\<open>renderBlocks\<close>, \<open>SolveBoard\<close>). Both work on a list of blocks.
  Integers are modelled as \<open>int\<close>: every coordinate that reaches an array is first
  compared with the board size, and the values on a 6 x 6 board are far from the range
  where the 63-bit (OCaml) or 32-bit (C++) representation would wrap.
\<close>

datatype tileKind = Empty | Block | Prisoner

record block =
  blk_id :: int
  blk_y :: int
  blk_x :: int
  blk_isHorizontal :: bool
  blk_kind :: tileKind
  blk_length :: int

datatype direction = Left | Right | Up | Down

text \<open>What a run can stop with besides a result: the two OCaml exceptions
  (\<open>Invalid_argument "index out of bounds"\<close>, \<open>Not_found\<close>), the C++ \<open>assert\<close>, and a C++
  access outside \<open>Board::_data\<close>, whose behaviour the language leaves undefined.\<close>

datatype error = Invalid_argument | Not_found | Assertion_failed | Undefined_behaviour

fun foldE :: "('a \<Rightarrow> 's \<Rightarrow> error + 's) \<Rightarrow> 'a list \<Rightarrow> 's \<Rightarrow> error + 's" where
  "foldE f [] s = Inr s"
| "foldE f (x # xs) s = (case f x s of Inl e \<Rightarrow> Inl e | Inr s' \<Rightarrow> foldE f xs s')"

section \<open>The OCaml solver\<close>

definition g_boardSize :: int where
  "g_boardSize = 6"

record board =
  brd_data :: "tileKind list list"
  brd_hashes :: "int list"

record move =
  mv_blockId :: int
  mv_steps :: int
  mv_direction :: direction

text \<open>\<open>a.(y).(x) <- k\<close>: both indices are checked against the arrays' lengths.\<close>

definition set_tile :: "tileKind list list \<Rightarrow> int \<Rightarrow> int \<Rightarrow> tileKind \<Rightarrow> error + tileKind list list" where
  "set_tile d y x k =
     (if 0 \<le> y \<and> y < int (length d) \<and> 0 \<le> x \<and> x < int (length (d ! nat y))
      then Inr (d[nat y := (d ! nat y)[nat x := k]])
      else Inl Invalid_argument)"

definition hash_block :: "block \<Rightarrow> int" where
  "hash_block blk = blk_id blk OR push_bit 8 (blk_y blk) OR push_bit 16 (blk_x blk)"

definition put_tile :: "block \<Rightarrow> int \<Rightarrow> tileKind list list \<Rightarrow> error + tileKind list list" where
  "put_tile blk i d =
     (if blk_isHorizontal blk then set_tile d (blk_y blk) (blk_x blk + i) (blk_kind blk)
      else set_tile d (blk_y blk + i) (blk_x blk) (blk_kind blk))"

definition put_block :: "block \<Rightarrow> board \<Rightarrow> error + board" where
  "put_block blk brd =
     (case foldE (put_tile blk) (map int [0..<nat (blk_length blk)]) (brd_data brd) of
        Inl e \<Rightarrow> Inl e
      | Inr d \<Rightarrow> Inr \<lparr>brd_data = d, brd_hashes = hash_block blk # brd_hashes brd\<rparr>)"

definition empty_board :: board where
  "empty_board = \<lparr>brd_data = replicate (nat g_boardSize) (replicate (nat g_boardSize) Empty),
                  brd_hashes = []\<rparr>"

definition make_board :: "block list \<Rightarrow> error + board" where
  "make_board listOfBlocks = foldE put_block listOfBlocks empty_board"

subsection \<open>Move generation\<close>

fun cropAtFirstFullTile :: "'a option list \<Rightarrow> 'a list" where
  "cropAtFirstFullTile [] = []"
| "cropAtFirstFullTile (None # xs) = []"
| "cropAtFirstFullTile (Some x # xs) = x # cropAtFirstFullTile xs"

definition tileToCheckCoord :: "block \<Rightarrow> int \<Rightarrow> int \<Rightarrow> int" where
  "tileToCheckCoord blk v dv =
     (if dv = 0 then v else if dv < 0 then v + dv else v + blk_length blk + dv - 1)"

definition isEmptyTile :: "board \<Rightarrow> block \<Rightarrow> int \<Rightarrow> int \<Rightarrow> bool" where
  "isEmptyTile brd blk dx dy =
     (let tx = tileToCheckCoord blk (blk_x blk) dx;
          ty = tileToCheckCoord blk (blk_y blk) dy
      in tx \<ge> 0 \<and> tx < g_boardSize \<and> ty \<ge> 0 \<and> ty < g_boardSize \<and>
         Empty = brd_data brd ! nat ty ! nat tx)"

definition makeMove :: "board \<Rightarrow> block \<Rightarrow> int \<Rightarrow> int \<Rightarrow> direction \<Rightarrow> (block \<times> move) option" where
  "makeMove brd blk dx dy dir =
     (if isEmptyTile brd blk dx dy
      then Some (blk\<lparr>blk_y := blk_y blk + dy, blk_x := blk_x blk + dx\<rparr>,
                 \<lparr>mv_blockId = blk_id blk, mv_steps = max \<bar>dx\<bar> \<bar>dy\<bar>, mv_direction = dir\<rparr>)
      else None)"

definition findBlockMoves :: "board \<Rightarrow> block \<Rightarrow> (block \<times> move) list" where
  "findBlockMoves brd blk =
     (if blk_isHorizontal blk then
        cropAtFirstFullTile (map (\<lambda>distance. makeMove brd blk (- distance) 0 Left) [1..g_boardSize - 1])
        @ cropAtFirstFullTile (map (\<lambda>distance. makeMove brd blk distance 0 Right) [1..g_boardSize - 1])
      else
        cropAtFirstFullTile (map (\<lambda>distance. makeMove brd blk 0 (- distance) Up) [1..g_boardSize - 1])
        @ cropAtFirstFullTile (map (\<lambda>distance. makeMove brd blk 0 distance Down) [1..g_boardSize - 1]))"

subsection \<open>The search loop of \<open>solveBoard\<close>\<close>

text \<open>
  The loop's variables: the FIFO queue of \<open>(level, move, blocks)\<close>, the \<open>visited\<close>
  table and the \<open>previousMoves\<close> table keyed by \<open>(board, level)\<close>. Both tables compare keys
  structurally, so two boards are the same key when their tiles and their hash lists agree.
\<close>

record search_state =
  ss_queue :: "(int \<times> move \<times> block list) list"
  ss_visited :: "board set"
  ss_previousMoves :: "(board \<times> int) \<rightharpoonup> move"

definition dummyMove :: move where
  "dummyMove = \<lparr>mv_blockId = - 1, mv_steps = 0, mv_direction = Left\<rparr>"

text \<open>\<open>a.(y).(x)\<close>: a read, checked like the write.\<close>

definition get_tile :: "tileKind list list \<Rightarrow> int \<Rightarrow> int \<Rightarrow> error + tileKind" where
  "get_tile d y x =
     (if 0 \<le> y \<and> y < int (length d) \<and> 0 \<le> x \<and> x < int (length (d ! nat y))
      then Inr (d ! nat y ! nat x)
      else Inl Invalid_argument)"

text \<open>The win test: the tiles of the prisoner's row from column \<open>_x + _length\<close> to the last.
  \<open>!allClear && ...\<close> reads no further tile once \<open>allClear\<close> is false.\<close>

fun clearFrom :: "board \<Rightarrow> int \<Rightarrow> int list \<Rightarrow> error + bool" where
  "clearFrom brd y [] = Inr True"
| "clearFrom brd y (x # xs) =
     (case get_tile (brd_data brd) y x of
        Inl e \<Rightarrow> Inl e
      | Inr t \<Rightarrow> if Empty = t then clearFrom brd y xs else Inr False)"

definition allClear :: "board \<Rightarrow> block \<Rightarrow> error + bool" where
  "allClear brd it = clearFrom brd (blk_y it) [blk_x it + blk_length it..g_boardSize - 1]"

definition backStep :: "move \<Rightarrow> block list \<Rightarrow> block list" where
  "backStep itMove blocks =
     map (\<lambda>b. if blk_id b = mv_blockId itMove then
                 (case mv_direction itMove of
                    Left \<Rightarrow> b\<lparr>blk_x := blk_x b + mv_steps itMove\<rparr>
                  | Right \<Rightarrow> b\<lparr>blk_x := blk_x b - mv_steps itMove\<rparr>
                  | Up \<Rightarrow> b\<lparr>blk_y := blk_y b + mv_steps itMove\<rparr>
                  | Down \<Rightarrow> b\<lparr>blk_y := blk_y b - mv_steps itMove\<rparr>)
               else b) blocks"

text \<open>
  The backtracking loop. It returns the stack of snapshots in the order \<open>Stack.iter\<close> prints
  them (oldest first) and, beside it, the moves it read from \<open>previousMoves\<close> on the way, in
  the same order. \<open>None\<close> means the fuel ran out.
\<close>

fun backtrack :: "nat \<Rightarrow> ((board \<times> int) \<rightharpoonup> move) \<Rightarrow> board \<Rightarrow> block list \<Rightarrow> int \<Rightarrow>
    block list list \<Rightarrow> move list \<Rightarrow> (error + block list list \<times> move list) option" where
  "backtrack 0 prev currentBoard currentBlocks currentLevel solution moves = None"
| "backtrack (Suc n) prev currentBoard currentBlocks currentLevel solution moves =
     (case prev (currentBoard, currentLevel) of
        None \<Rightarrow> Some (Inr (solution, moves))
      | Some itMove \<Rightarrow>
          if mv_blockId itMove = - 1 then Some (Inr (solution, moves))
          else (let bs = backStep itMove currentBlocks in
                case make_board bs of
                  Inl e \<Rightarrow> Some (Inl e)
                | Inr b \<Rightarrow> backtrack n prev b bs (currentLevel - 1) (bs # solution) (itMove # moves)))"

text \<open>Expansion of one state: every block in list order, every move of the block in the
  order \<open>findBlockMoves\<close> yields them; a child is queued unless its board is visited.\<close>

definition add_child :: "board set \<Rightarrow> int \<Rightarrow> block list \<Rightarrow> nat \<Rightarrow> block \<times> move \<Rightarrow>
    (int \<times> move \<times> block list) list \<Rightarrow> error + (int \<times> move \<times> block list) list" where
  "add_child vis level blocks i bm q =
     (let newListOfBlocks = blocks[i := fst bm] in
      case make_board newListOfBlocks of
        Inl e \<Rightarrow> Inl e
      | Inr newBoard \<Rightarrow>
          Inr (if newBoard \<notin> vis then q @ [(level + 1, snd bm, newListOfBlocks)] else q))"

definition add_children :: "board set \<Rightarrow> int \<Rightarrow> board \<Rightarrow> block list \<Rightarrow> nat \<Rightarrow>
    (int \<times> move \<times> block list) list \<Rightarrow> error + (int \<times> move \<times> block list) list" where
  "add_children vis level brd blocks i q =
     foldE (add_child vis level blocks i) (findBlockMoves brd (blocks ! i)) q"

definition expand :: "board set \<Rightarrow> int \<Rightarrow> board \<Rightarrow> block list \<Rightarrow>
    (int \<times> move \<times> block list) list \<Rightarrow> error + (int \<times> move \<times> block list) list" where
  "expand vis level brd blocks q =
     foldE (add_children vis level brd blocks) [0..<length blocks] q"

datatype outcome = Solved "block list list" "move list" | NoSolution | Failed error

datatype step_result =
    Continue search_state
  | Won search_state board "block list" int
  | Stop outcome

definition step :: "search_state \<Rightarrow> step_result" where
  "step st =
     (case ss_queue st of
        [] \<Rightarrow> Stop NoSolution
      | (level, mv, blocks) # rest \<Rightarrow>
          (case make_board blocks of
             Inl e \<Rightarrow> Stop (Failed e)
           | Inr brd \<Rightarrow>
               if brd \<in> ss_visited st then Continue (st\<lparr>ss_queue := rest\<rparr>)
               else
                 (let vis = insert brd (ss_visited st);
                      prev = (ss_previousMoves st)((brd, level) \<mapsto> mv);
                      st1 = \<lparr>ss_queue = rest, ss_visited = vis, ss_previousMoves = prev\<rparr>
                  in case find (\<lambda>blk. blk_kind blk = Prisoner) blocks of
                       None \<Rightarrow> Stop (Failed Not_found)
                     | Some it \<Rightarrow>
                         (case allClear brd it of
                            Inl e \<Rightarrow> Stop (Failed e)
                          | Inr True \<Rightarrow> Won st1 brd blocks level
                          | Inr False \<Rightarrow>
                              (case expand vis level brd blocks rest of
                                 Inl e \<Rightarrow> Stop (Failed e)
                               | Inr q \<Rightarrow> Continue (st1\<lparr>ss_queue := q\<rparr>))))))"

fun solveLoop :: "nat \<Rightarrow> search_state \<Rightarrow> outcome option" where
  "solveLoop 0 st = None"
| "solveLoop (Suc n) st =
     (case step st of
        Continue st' \<Rightarrow> solveLoop n st'
      | Stop r \<Rightarrow> Some r
      | Won st' brd blocks level \<Rightarrow>
          (case backtrack n (ss_previousMoves st') brd blocks level [blocks] [] of
             None \<Rightarrow> None
           | Some (Inl e) \<Rightarrow> Some (Failed e)
           | Some (Inr (solution, moves)) \<Rightarrow> Some (Solved solution moves)))"

definition initial_state :: "block list \<Rightarrow> board \<Rightarrow> search_state" where
  "initial_state listOfBlocks brd =
     \<lparr>ss_queue = [(1, dummyMove, listOfBlocks)],
      ss_visited = {},
      ss_previousMoves = [(brd, 0) \<mapsto> dummyMove]\<rparr>"

definition solveBoard :: "nat \<Rightarrow> block list \<Rightarrow> outcome option" where
  "solveBoard fuel listOfBlocks =
     (case make_board listOfBlocks of
        Inl e \<Rightarrow> Some (Failed e)
      | Inr brd \<Rightarrow> solveLoop fuel (initial_state listOfBlocks brd))"

section \<open>The C++ solver\<close>

definition SIZE :: int where
  "SIZE = 6"

text \<open>\<open>Board::_data\<close> is a flat array of \<open>SIZE*SIZE\<close> tiles and \<open>operator()(y, x)\<close> is
  \<open>_data[y*SIZE+x]\<close>; an index outside the array is undefined behaviour. \<open>operator<\<close>
  compares \<open>_data\<close> only, so two Boards are the same key of \<open>std::map\<close> and \<open>std::set\<close> exactly
  when their tiles are equal.\<close>

type_synonym Board = "tileKind list"

record Move =
  cm_blockId :: int
  cm_move :: direction

definition Board_get :: "Board \<Rightarrow> int \<Rightarrow> int \<Rightarrow> error + tileKind" where
  "Board_get b y x =
     (let i = y * SIZE + x in
      if 0 \<le> i \<and> i < int (length b) then Inr (b ! nat i) else Inl Undefined_behaviour)"

definition Board_set :: "Board \<Rightarrow> int \<Rightarrow> int \<Rightarrow> tileKind \<Rightarrow> error + Board" where
  "Board_set b y x k =
     (let i = y * SIZE + x in
      if 0 \<le> i \<and> i < int (length b) then Inr (b[nat i := k]) else Inl Undefined_behaviour)"

definition render_tile :: "block \<Rightarrow> int \<Rightarrow> Board \<Rightarrow> error + Board" where
  "render_tile p i tmp =
     (if blk_isHorizontal p then Board_set tmp (blk_y p) (blk_x p + i) (blk_kind p)
      else Board_set tmp (blk_y p + i) (blk_x p) (blk_kind p))"

definition render_block :: "block \<Rightarrow> Board \<Rightarrow> error + Board" where
  "render_block p tmp = foldE (render_tile p) (map int [0..<nat (blk_length p)]) tmp"

definition renderBlocks :: "block list \<Rightarrow> error + Board" where
  "renderBlocks blocks = foldE render_block blocks (replicate (nat (SIZE * SIZE)) Empty)"

text \<open>\<open>std::map::insert\<close> keeps the element already stored under an equal key.\<close>

definition map_insert :: "('k \<rightharpoonup> 'v) \<Rightarrow> 'k \<Rightarrow> 'v \<Rightarrow> ('k \<rightharpoonup> 'v)" where
  "map_insert m k v = (case m k of None \<Rightarrow> m(k \<mapsto> v) | Some _ \<Rightarrow> m)"

record cpp_state =
  cs_queue :: "block list list"
  cs_visited :: "Board set"
  cs_previousMoves :: "Board \<rightharpoonup> Move"

text \<open>The win test scans the prisoner's row from column \<open>_x + _length\<close> and leaves the
  loop at the first tile that is not empty.\<close>

fun scanRight :: "Board \<Rightarrow> int \<Rightarrow> int list \<Rightarrow> error + bool" where
  "scanRight brd y [] = Inr True"
| "scanRight brd y (x # xs) =
     (case Board_get brd y x of
        Inl e \<Rightarrow> Inl e
      | Inr t \<Rightarrow> if t = Empty then scanRight brd y xs else Inr False)"

definition canEscape :: "Board \<Rightarrow> block \<Rightarrow> error + bool" where
  "canEscape brd it = scanRight brd (blk_y it) [blk_x it + blk_length it..SIZE - 1]"

text \<open>\<open>find_if\<close> on the block's id followed by the update of the block found.\<close>

fun update_first :: "(block \<Rightarrow> bool) \<Rightarrow> (block \<Rightarrow> block) \<Rightarrow> block list \<Rightarrow> block list option" where
  "update_first P f [] = None"
| "update_first P f (b # bs) =
     (if P b then Some (f b # bs) else map_option (\<lambda>r. b # r) (update_first P f bs))"

definition undo :: "direction \<Rightarrow> block \<Rightarrow> block" where
  "undo d b =
     (case d of
        Left \<Rightarrow> b\<lparr>blk_x := blk_x b + 1\<rparr>
      | Right \<Rightarrow> b\<lparr>blk_x := blk_x b - 1\<rparr>
      | Up \<Rightarrow> b\<lparr>blk_y := blk_y b + 1\<rparr>
      | Down \<Rightarrow> b\<lparr>blk_y := blk_y b - 1\<rparr>)"

text \<open>The backtracking loop of \<open>SolveBoard\<close>; the result lists the snapshots oldest first
  and, beside them, the moves read from \<open>previousMoves\<close>. \<open>None\<close> means the fuel ran out.\<close>

fun Backtrack :: "nat \<Rightarrow> (Board \<rightharpoonup> Move) \<Rightarrow> Board \<Rightarrow> block list \<Rightarrow> block list list \<Rightarrow>
    Move list \<Rightarrow> (error + block list list \<times> Move list) option" where
  "Backtrack 0 prev brd blocks solution moves = None"
| "Backtrack (Suc n) prev brd blocks solution moves =
     (case prev brd of
        None \<Rightarrow> Some (Inr (solution, moves))
      | Some itMove \<Rightarrow>
          if cm_blockId itMove = - 1 then Some (Inr (solution, moves))
          else (case update_first (\<lambda>b. blk_id b = cm_blockId itMove) (undo (cm_move itMove)) blocks of
                  None \<Rightarrow> Some (Inl Assertion_failed)
                | Some blocks' \<Rightarrow>
                    (case renderBlocks blocks' of
                       Inl e \<Rightarrow> Some (Inl e)
                     | Inr brd' \<Rightarrow>
                         Backtrack n prev brd' blocks' (blocks' # solution) (itMove # moves))))"

text \<open>\<open>COMMON_BODY\<close>: queue a copy of the moved list and insert its board with the move.\<close>

definition COMMON_BODY :: "block list \<Rightarrow> int \<Rightarrow> direction \<Rightarrow>
    block list list \<times> (Board \<rightharpoonup> Move) \<Rightarrow> error + block list list \<times> (Board \<rightharpoonup> Move)" where
  "COMMON_BODY copiedBlocks bid d s =
     (case renderBlocks copiedBlocks of
        Inl e \<Rightarrow> Inl e
      | Inr b \<Rightarrow> Inr (fst s @ [copiedBlocks], map_insert (snd s) b \<lparr>cm_blockId = bid, cm_move = d\<rparr>))"

text \<open>One guarded move of the expansion: the bound test, the read of the neighbouring tile
  of the pre-move board, and \<open>COMMON_BODY\<close> on the list with the block moved one tile.\<close>

definition tryMove :: "Board \<Rightarrow> block list \<Rightarrow> nat \<Rightarrow> bool \<Rightarrow> int \<Rightarrow> int \<Rightarrow> block \<Rightarrow> direction \<Rightarrow>
    block list list \<times> (Board \<rightharpoonup> Move) \<Rightarrow> error + block list list \<times> (Board \<rightharpoonup> Move)" where
  "tryMove brd blocks i inside ty tx moved d s =
     (if inside then
        (case Board_get brd ty tx of
           Inl e \<Rightarrow> Inl e
         | Inr t \<Rightarrow> if Empty = t then COMMON_BODY (blocks[i := moved]) (blk_id (blocks ! i)) d s
                    else Inr s)
      else Inr s)"

definition expandBlock :: "Board \<Rightarrow> block list \<Rightarrow> nat \<Rightarrow>
    block list list \<times> (Board \<rightharpoonup> Move) \<Rightarrow> error + block list list \<times> (Board \<rightharpoonup> Move)" where
  "expandBlock brd blocks i s =
     (let blk = blocks ! i in
      if blk_isHorizontal blk then
        (case tryMove brd blocks i (blk_x blk > 0) (blk_y blk) (blk_x blk - 1)
                (blk\<lparr>blk_x := blk_x blk - 1\<rparr>) Left s of
           Inl e \<Rightarrow> Inl e
         | Inr s' \<Rightarrow>
             tryMove brd blocks i (blk_x blk + blk_length blk < SIZE) (blk_y blk)
               (blk_x blk + blk_length blk) (blk\<lparr>blk_x := blk_x blk + 1\<rparr>) Right s')
      else
        (case tryMove brd blocks i (blk_y blk > 0) (blk_y blk - 1) (blk_x blk)
                (blk\<lparr>blk_y := blk_y blk - 1\<rparr>) Up s of
           Inl e \<Rightarrow> Inl e
         | Inr s' \<Rightarrow>
             tryMove brd blocks i (blk_y blk + blk_length blk < SIZE) (blk_y blk + blk_length blk)
               (blk_x blk) (blk\<lparr>blk_y := blk_y blk + 1\<rparr>) Down s'))"

definition expandAll :: "Board \<Rightarrow> block list \<Rightarrow>
    block list list \<times> (Board \<rightharpoonup> Move) \<Rightarrow> error + block list list \<times> (Board \<rightharpoonup> Move)" where
  "expandAll brd blocks s = foldE (expandBlock brd blocks) [0..<length blocks] s"

datatype cpp_outcome = Escaped "block list list" "Move list" | Exhausted | Aborted error

datatype cpp_step_result =
    Next cpp_state
  | Found cpp_state Board "block list"
  | Halt cpp_outcome

definition Step :: "cpp_state \<Rightarrow> cpp_step_result" where
  "Step st =
     (case cs_queue st of
        [] \<Rightarrow> Halt Exhausted
      | blocks # rest \<Rightarrow>
          (case renderBlocks blocks of
             Inl e \<Rightarrow> Halt (Aborted e)
           | Inr brd \<Rightarrow>
               if brd \<in> cs_visited st then Next (st\<lparr>cs_queue := rest\<rparr>)
               else
                 (let st1 = st\<lparr>cs_queue := rest, cs_visited := insert brd (cs_visited st)\<rparr>
                  in case find (\<lambda>x. blk_kind x = Prisoner) blocks of
                       None \<Rightarrow> Halt (Aborted Assertion_failed)
                     | Some it \<Rightarrow>
                         (case canEscape brd it of
                            Inl e \<Rightarrow> Halt (Aborted e)
                          | Inr True \<Rightarrow> Found st1 brd blocks
                          | Inr False \<Rightarrow>
                              (case expandAll brd blocks (rest, cs_previousMoves st) of
                                 Inl e \<Rightarrow> Halt (Aborted e)
                               | Inr (q, prev) \<Rightarrow>
                                   Next (st1\<lparr>cs_queue := q, cs_previousMoves := prev\<rparr>))))))"

fun SolveLoop :: "nat \<Rightarrow> cpp_state \<Rightarrow> cpp_outcome option" where
  "SolveLoop 0 st = None"
| "SolveLoop (Suc n) st =
     (case Step st of
        Next st' \<Rightarrow> SolveLoop n st'
      | Halt r \<Rightarrow> Some r
      | Found st' brd blocks \<Rightarrow>
          (case Backtrack n (cs_previousMoves st') brd blocks [blocks] [] of
             None \<Rightarrow> None
           | Some (Inl e) \<Rightarrow> Some (Aborted e)
           | Some (Inr (solution, moves)) \<Rightarrow> Some (Escaped solution moves)))"

definition SolveBoard :: "nat \<Rightarrow> block list \<Rightarrow> cpp_outcome option" where
  "SolveBoard fuel blocks =
     (case renderBlocks blocks of
        Inl e \<Rightarrow> Some (Aborted e)
      | Inr brd \<Rightarrow>
          SolveLoop fuel \<lparr>cs_queue = [blocks], cs_visited = {},
                          cs_previousMoves = [brd \<mapsto> \<lparr>cm_blockId = - 1, cm_move = Left\<rparr>]\<rparr>)"

section \<open>Notions used to state the properties\<close>

text \<open>
  A tile is a pair (row, column). \<open>tiles b\<close> is the footprint of a block, written the way
  both renderers walk it; \<open>occupant\<close> is the kind a rendering leaves on a tile (the last
  block of the list that covers it wins). \<open>tile_at\<close> and \<open>Tile_at\<close> read the OCaml matrix
  and the flat C++ array.
\<close>

definition in_grid :: "int \<Rightarrow> int \<Rightarrow> bool" where
  "in_grid y x = (0 \<le> y \<and> y < 6 \<and> 0 \<le> x \<and> x < 6)"

definition wf_grid :: "tileKind list list \<Rightarrow> bool" where
  "wf_grid d = (length d = 6 \<and> (\<forall>r\<in>set d. length r = 6))"

definition tile_at :: "tileKind list list \<Rightarrow> int \<Rightarrow> int \<Rightarrow> tileKind" where
  "tile_at d y x = d ! nat y ! nat x"

definition tile_of :: "block \<Rightarrow> int \<Rightarrow> int \<times> int" where
  "tile_of b i = (if blk_isHorizontal b then (blk_y b, blk_x b + i) else (blk_y b + i, blk_x b))"

definition tiles :: "block \<Rightarrow> (int \<times> int) list" where
  "tiles b = map (tile_of b) (map int [0..<nat (blk_length b)])"

definition occupant :: "block list \<Rightarrow> int \<Rightarrow> int \<Rightarrow> tileKind" where
  "occupant bs y x =
     (case find (\<lambda>b. (y, x) \<in> set (tiles b)) (rev bs) of None \<Rightarrow> Empty | Some b \<Rightarrow> blk_kind b)"

definition block_in_grid :: "block \<Rightarrow> bool" where
  "block_in_grid b = (\<forall>t\<in>set (tiles b). in_grid (fst t) (snd t))"

definition Tile_at :: "Board \<Rightarrow> int \<Rightarrow> int \<Rightarrow> tileKind" where
  "Tile_at b y x = b ! nat (y * 6 + x)"

text \<open>
  Slides. \<open>entered b dir k\<close> is the tile a block newly covers at the \<open>k\<close>-th tile of a
  slide in direction \<open>dir\<close>, so the tiles between the footprint before a slide of distance
  \<open>d\<close> and the footprint after it are \<open>entered b dir k\<close> for \<open>k = 1..d\<close>; \<open>shift\<close> is the block
  after the slide and \<open>along\<close> says that the direction lies on the block's axis.
\<close>

definition entered :: "block \<Rightarrow> direction \<Rightarrow> int \<Rightarrow> int \<times> int" where
  "entered b dir k =
     (case dir of
        Left \<Rightarrow> (blk_y b, blk_x b - k)
      | Right \<Rightarrow> (blk_y b, blk_x b + blk_length b + k - 1)
      | Up \<Rightarrow> (blk_y b - k, blk_x b)
      | Down \<Rightarrow> (blk_y b + blk_length b + k - 1, blk_x b))"

definition shift :: "block \<Rightarrow> direction \<Rightarrow> int \<Rightarrow> block" where
  "shift b dir d =
     (case dir of
        Left \<Rightarrow> b\<lparr>blk_x := blk_x b - d\<rparr>
      | Right \<Rightarrow> b\<lparr>blk_x := blk_x b + d\<rparr>
      | Up \<Rightarrow> b\<lparr>blk_y := blk_y b - d\<rparr>
      | Down \<Rightarrow> b\<lparr>blk_y := blk_y b + d\<rparr>)"

definition along :: "block \<Rightarrow> direction \<Rightarrow> bool" where
  "along b dir = (if blk_isHorizontal b then dir = Left \<or> dir = Right else dir = Up \<or> dir = Down)"

definition free_tile :: "tileKind list list \<Rightarrow> int \<times> int \<Rightarrow> bool" where
  "free_tile d t = (in_grid (fst t) (snd t) \<and> tile_at d (fst t) (snd t) = Empty)"

definition path_clear :: "tileKind list list \<Rightarrow> block \<Rightarrow> direction \<Rightarrow> int \<Rightarrow> bool" where
  "path_clear d b dir n = (\<forall>k\<in>{1..n}. free_tile d (entered b dir k))"

definition slide_move :: "block \<Rightarrow> direction \<Rightarrow> int \<Rightarrow> block \<times> move" where
  "slide_move b dir d = (shift b dir d, \<lparr>mv_blockId = blk_id b, mv_steps = d, mv_direction = dir\<rparr>)"

definition scan :: "board \<Rightarrow> block \<Rightarrow> direction \<Rightarrow> (block \<times> move) list" where
  "scan brd blk dir =
     map (slide_move blk dir)
       (takeWhile (\<lambda>d. free_tile (brd_data brd) (entered blk dir d)) [1..g_boardSize - 1])"

definition one_block_moved :: "block list \<Rightarrow> block list \<Rightarrow> bool" where
  "one_block_moved parent child =
     (length child = length parent \<and>
      (\<exists>i<length parent.
         (\<forall>j<length parent. j \<noteq> i \<longrightarrow> child ! j = parent ! j) \<and>
         blk_id (child ! i) = blk_id (parent ! i) \<and>
         blk_kind (child ! i) = blk_kind (parent ! i) \<and>
         blk_isHorizontal (child ! i) = blk_isHorizontal (parent ! i) \<and>
         blk_length (child ! i) = blk_length (parent ! i) \<and>
         (if blk_isHorizontal (parent ! i)
          then blk_y (child ! i) = blk_y (parent ! i) \<and> blk_x (child ! i) \<noteq> blk_x (parent ! i)
          else blk_x (child ! i) = blk_x (parent ! i) \<and> blk_y (child ! i) \<noteq> blk_y (parent ! i))))"

definition can_step :: "Board \<Rightarrow> block \<Rightarrow> direction \<Rightarrow> bool" where
  "can_step brd b dir =
     (along b dir \<and>
      (case dir of
         Left \<Rightarrow> blk_x b > 0
       | Right \<Rightarrow> blk_x b + blk_length b < SIZE
       | Up \<Rightarrow> blk_y b > 0
       | Down \<Rightarrow> blk_y b + blk_length b < SIZE) \<and>
      Board_get brd (fst (entered b dir 1)) (snd (entered b dir 1)) = Inr Empty)"

text \<open>
  Legality of a slide, stated on the block list alone: block \<open>i\<close> slides \<open>d\<close> tiles along its
  axis and every tile it enters is inside the grid and covered by no block. \<open>placed\<close> is the
  board invariant: every footprint inside the grid, no tile covered twice, every block at
  least one tile long and of kind \<open>Block\<close> or \<open>Prisoner\<close>. \<open>ml_child\<close> and \<open>cpp_child\<close> are the
  successor relations of the two solvers, read off their expansion code.
\<close>

definition free_in :: "block list \<Rightarrow> int \<times> int \<Rightarrow> bool" where
  "free_in bs t = (in_grid (fst t) (snd t) \<and> occupant bs (fst t) (snd t) = Empty)"

definition legal_slide :: "block list \<Rightarrow> nat \<Rightarrow> direction \<Rightarrow> int \<Rightarrow> bool" where
  "legal_slide bs i dir d =
     (i < length bs \<and> along (bs ! i) dir \<and> 1 \<le> d \<and> (\<forall>k\<in>{1..d}. free_in bs (entered (bs ! i) dir k)))"

definition placed :: "block list \<Rightarrow> bool" where
  "placed bs =
     ((\<forall>b\<in>set bs. block_in_grid b \<and> 1 \<le> blk_length b \<and> blk_kind b \<noteq> Empty) \<and>
      distinct (concat (map tiles bs)))"

definition ml_child :: "block list \<Rightarrow> block list \<Rightarrow> bool" where
  "ml_child bs c =
     (\<exists>brd i bm. make_board bs = Inr brd \<and> i < length bs \<and>
        bm \<in> set (findBlockMoves brd (bs ! i)) \<and> c = bs[i := fst bm])"

definition cpp_child :: "block list \<Rightarrow> block list \<Rightarrow> bool" where
  "cpp_child bs c =
     (\<exists>brd s s'. renderBlocks bs = Inr brd \<and> expandAll brd bs s = Inr s' \<and>
        c \<in> set (drop (length (fst s)) (fst s')))"

text \<open>
  What one expansion appends, written as lists: \<open>children\<close> for \<open>solveBoard\<close> (the entries
  whose board is not visited) and \<open>Children\<close> for \<open>SolveBoard\<close> (every one-tile step, with the
  move stored for it). \<open>the_board\<close> and \<open>the_Board\<close> name the rendering of a list that renders.
\<close>

definition the_board :: "block list \<Rightarrow> board" where
  "the_board bs = (case make_board bs of Inr b \<Rightarrow> b | Inl e \<Rightarrow> empty_board)"

definition the_Board :: "block list \<Rightarrow> Board" where
  "the_Board bs = (case renderBlocks bs of Inr b \<Rightarrow> b | Inl e \<Rightarrow> [])"

definition child_entries :: "board set \<Rightarrow> int \<Rightarrow> block list \<Rightarrow> nat \<Rightarrow> block \<times> move \<Rightarrow>
    (int \<times> move \<times> block list) list" where
  "child_entries vis level bs i bm =
     (if the_board (bs[i := fst bm]) \<notin> vis then [(level + 1, snd bm, bs[i := fst bm])] else [])"

definition children :: "board set \<Rightarrow> int \<Rightarrow> board \<Rightarrow> block list \<Rightarrow> (int \<times> move \<times> block list) list" where
  "children vis level brd bs =
     concat (map (\<lambda>i. concat (map (child_entries vis level bs i) (findBlockMoves brd (bs ! i))))
                 [0..<length bs])"

definition Kids :: "Board \<Rightarrow> block list \<Rightarrow> nat \<Rightarrow> (block list \<times> Move) list" where
  "Kids brd bs i =
     map (\<lambda>d. (bs[i := shift (bs ! i) d 1], \<lparr>cm_blockId = blk_id (bs ! i), cm_move = d\<rparr>))
         (filter (can_step brd (bs ! i)) [Left, Right, Up, Down])"

definition push_kid :: "block list list \<times> (Board \<rightharpoonup> Move) \<Rightarrow> block list \<times> Move \<Rightarrow>
    block list list \<times> (Board \<rightharpoonup> Move)" where
  "push_kid s k = (fst s @ [fst k], map_insert (snd s) (the_Board (fst k)) (snd k))"

definition Children :: "Board \<Rightarrow> block list \<Rightarrow> (block list \<times> Move) list" where
  "Children brd bs = concat (map (Kids brd bs) [0..<length bs])"

text \<open>Scenario A of the specification: the prisoner alone, in row 2, at the left edge.\<close>

definition scenario_A :: "block list" where
  "scenario_A = [\<lparr>blk_id = 0, blk_y = 2, blk_x = 0, blk_isHorizontal = True,
                   blk_kind = Prisoner, blk_length = 2\<rparr>]"

text \<open>A board on which the prisoner is blocked by a vertical block that has to travel two
  tiles down (one tile up leaves it in the prisoner's row).\<close>

definition blocked_board :: "block list" where
  "blocked_board =
     [\<lparr>blk_id = 0, blk_y = 2, blk_x = 0, blk_isHorizontal = True, blk_kind = Prisoner, blk_length = 2\<rparr>,
      \<lparr>blk_id = 1, blk_y = 1, blk_x = 5, blk_isHorizontal = False, blk_kind = Block, blk_length = 3\<rparr>]"

text \<open>Three malformed lists: a vertical block laid across the prisoner, a list without a
  prisoner, and a prisoner that sticks out of the grid on the right.\<close>

definition overlapping_board :: "block list" where
  "overlapping_board =
     [\<lparr>blk_id = 0, blk_y = 2, blk_x = 0, blk_isHorizontal = True, blk_kind = Prisoner, blk_length = 2\<rparr>,
      \<lparr>blk_id = 1, blk_y = 2, blk_x = 1, blk_isHorizontal = False, blk_kind = Block, blk_length = 2\<rparr>]"

definition no_prisoner_board :: "block list" where
  "no_prisoner_board =
     [\<lparr>blk_id = 0, blk_y = 1, blk_x = 5, blk_isHorizontal = False, blk_kind = Block, blk_length = 3\<rparr>]"

definition outside_board :: "block list" where
  "outside_board =
     [\<lparr>blk_id = 0, blk_y = 2, blk_x = 5, blk_isHorizontal = True, blk_kind = Prisoner, blk_length = 2\<rparr>]"

section \<open>Notions used to state the properties of the search\<close>

text \<open>
  A valid initial configuration: the blocks are placed, their ids are distinct and lie in
  \<open>0..255\<close> (ids come from a counter that starts at 0, and \<open>hash_block\<close> keeps the low byte for
  the id), and there is a prisoner. An arrangement of the initial list is a placed list with
  the same ids, orientations, kinds and lengths in the same order. \<open>apply_move\<close> and \<open>replay\<close>
  apply the moves of a solution to the initial list; \<open>winning\<close> is the win test of \<open>solveBoard\<close>.
  \<open>trail\<close> describes a queue entry of \<open>solveBoard\<close> together with the entries it descends
  from, each recorded in \<open>previousMoves\<close> under its level; \<open>ml_inv\<close> is the loop invariant built
  on it and \<open>visit\<close> the state after a board has been marked and recorded.
\<close>

definition shape :: "block \<Rightarrow> int \<times> bool \<times> tileKind \<times> int" where
  "shape b = (blk_id b, blk_isHorizontal b, blk_kind b, blk_length b)"

definition valid_config :: "block list \<Rightarrow> bool" where
  "valid_config bs =
     (placed bs \<and> distinct (map blk_id bs) \<and> (\<forall>b\<in>set bs. 0 \<le> blk_id b \<and> blk_id b < 256) \<and>
      (\<exists>b\<in>set bs. blk_kind b = Prisoner))"

definition arrangement :: "block list \<Rightarrow> block list \<Rightarrow> bool" where
  "arrangement init bs = (placed bs \<and> map shape bs = map shape init)"



definition winning :: "block list \<Rightarrow> bool" where
  "winning bs =
     (case make_board bs of
        Inl e \<Rightarrow> False
      | Inr brd \<Rightarrow>
          (case find (\<lambda>b. blk_kind b = Prisoner) bs of
             None \<Rightarrow> False
           | Some it \<Rightarrow> allClear brd it = Inr True))"

inductive trail :: "block list \<Rightarrow> ((board \<times> int) \<rightharpoonup> move) \<Rightarrow> int \<Rightarrow> move \<Rightarrow> block list \<Rightarrow>
    block list list \<Rightarrow> move list \<Rightarrow> bool" for init prev where
  start: "trail init prev 1 dummyMove init [init] []"
| extend: "trail init prev lvl pmv pbs snaps moves \<Longrightarrow> prev (the_board pbs, lvl) = Some pmv \<Longrightarrow>
     legal_slide pbs i dir d \<Longrightarrow>
     trail init prev (lvl + 1) (snd (slide_move (pbs ! i) dir d)) (pbs[i := shift (pbs ! i) dir d])
       (snaps @ [pbs[i := shift (pbs ! i) dir d]]) (moves @ [snd (slide_move (pbs ! i) dir d)])"

definition ml_inv :: "block list \<Rightarrow> search_state \<Rightarrow> bool" where
  "ml_inv init st =
     ((\<forall>e\<in>set (ss_queue st). \<exists>snaps moves.
          trail init (ss_previousMoves st) (fst e) (fst (snd e)) (snd (snd e)) snaps moves) \<and>
      (\<forall>b lvl mv. ss_previousMoves st (b, lvl) = Some mv \<and> 1 \<le> lvl \<longrightarrow>
          b \<in> ss_visited st \<and>
          (\<exists>bs snaps moves. the_board bs = b \<and> trail init (ss_previousMoves st) lvl mv bs snaps moves)) \<and>
      (\<forall>b\<in>ss_visited st. \<exists>lvl mv. 1 \<le> lvl \<and> ss_previousMoves st (b, lvl) = Some mv))"

definition visit :: "search_state \<Rightarrow> int \<Rightarrow> move \<Rightarrow> block list \<Rightarrow>
    (int \<times> move \<times> block list) list \<Rightarrow> search_state" where
  "visit st level mv bs q =
     \<lparr>ss_queue = q, ss_visited = insert (the_board bs) (ss_visited st),
      ss_previousMoves = (ss_previousMoves st)((the_board bs, level) \<mapsto> mv)\<rparr>"

text \<open>
  The same notions for \<open>SolveBoard\<close>, whose moves are one-tile steps and whose table is keyed
  by the tiles alone. \<open>Trail\<close> follows the table backwards from a list to the initial one;
  \<open>cpp_inv\<close> says that every queued list is an arrangement whose board has an entry, and that
  for a board with an entry that is not visited yet, the first queued list with that board is
  the one the entry was stored for.
\<close>

definition sentinel :: Move where
  "sentinel = \<lparr>cm_blockId = - 1, cm_move = Left\<rparr>"

definition step_move :: "block \<Rightarrow> direction \<Rightarrow> Move" where
  "step_move b dir = \<lparr>cm_blockId = blk_id b, cm_move = dir\<rparr>"



definition Winning :: "block list \<Rightarrow> bool" where
  "Winning bs =
     (case renderBlocks bs of
        Inl e \<Rightarrow> False
      | Inr brd \<Rightarrow>
          (case find (\<lambda>b. blk_kind b = Prisoner) bs of
             None \<Rightarrow> False
           | Some it \<Rightarrow> canEscape brd it = Inr True))"

inductive Trail :: "block list \<Rightarrow> (Board \<rightharpoonup> Move) \<Rightarrow> block list \<Rightarrow> block list list \<Rightarrow> Move list \<Rightarrow> bool"
  for init prev where
  Start: "prev (the_Board init) = Some sentinel \<Longrightarrow> Trail init prev init [init] []"
| Extend: "Trail init prev pbs snaps moves \<Longrightarrow> legal_slide pbs i dir 1 \<Longrightarrow>
     prev (the_Board (pbs[i := shift (pbs ! i) dir 1])) = Some (step_move (pbs ! i) dir) \<Longrightarrow>
     Trail init prev (pbs[i := shift (pbs ! i) dir 1])
       (snaps @ [pbs[i := shift (pbs ! i) dir 1]]) (moves @ [step_move (pbs ! i) dir])"

definition cpp_inv :: "block list \<Rightarrow> Board set \<Rightarrow> block list list \<times> (Board \<rightharpoonup> Move) \<Rightarrow> bool" where
  "cpp_inv init vis s =
     ((\<forall>bs\<in>set (fst s). arrangement init bs \<and> the_Board bs \<in> dom (snd s)) \<and>
      (\<forall>b\<in>dom (snd s). b \<notin> vis \<longrightarrow>
         (\<exists>q1 bs q2. fst s = q1 @ bs # q2 \<and> the_Board bs = b \<and> (\<forall>x\<in>set q1. the_Board x \<noteq> b) \<and>
            (\<exists>snaps moves. Trail init (snd s) bs snaps moves))))"

definition Visit :: "cpp_state \<Rightarrow> block list \<Rightarrow> block list list \<times> (Board \<rightharpoonup> Move) \<Rightarrow> cpp_state" where
  "Visit st bs s =
     \<lparr>cs_queue = fst s, cs_visited = insert (the_Board bs) (cs_visited st), cs_previousMoves = snd s\<rparr>"

definition cpp_ok :: "block list \<Rightarrow> cpp_state \<Rightarrow> bool" where
  "cpp_ok init st = cpp_inv init (cs_visited st) (cs_queue st, cs_previousMoves st)"

section \<open>Slide sequences and the iterations of the search loops\<close>

text \<open>
  A sequence of legal slides, each of any distance, replayed from a configuration:
  \<open>run_slides init sl\<close> is the configuration reached, or \<open>None\<close> when some slide of
  \<open>sl\<close> is not legal where it is played. The length of \<open>sl\<close> is the number of moves when
  a slide of any distance counts as one move.
\<close>

definition do_slide :: "block list \<Rightarrow> nat \<times> direction \<times> int \<Rightarrow> block list option" where
  "do_slide bs s =
     (case s of (i, dir, d) \<Rightarrow>
        if legal_slide bs i dir d then Some (bs[i := shift (bs ! i) dir d]) else None)"

fun run_slides :: "block list \<Rightarrow> (nat \<times> direction \<times> int) list \<Rightarrow> block list option" where
  "run_slides bs [] = Some bs"
| "run_slides bs (s # ss) = (case do_slide bs s of None \<Rightarrow> None | Some bs' \<Rightarrow> run_slides bs' ss)"

text \<open>
  The breadth-first invariant of the OCaml loop: queue levels are sorted and span at most
  two consecutive values, every recorded or queued state was reached by a slide sequence
  of its level minus one, and the recorded states are closed under legal slides up to the
  queue.
\<close>

definition recorded :: "search_state \<Rightarrow> block list \<Rightarrow> int \<Rightarrow> bool" where
  "recorded st bs l = (\<exists>l' mv. 1 \<le> l' \<and> l' \<le> l \<and> ss_previousMoves st (the_board bs, l') = Some mv)"

definition queued :: "search_state \<Rightarrow> block list \<Rightarrow> int \<Rightarrow> bool" where
  "queued st bs l = (\<exists>l' mv. l' \<le> l \<and> (l', mv, bs) \<in> set (ss_queue st))"

definition ml_bfs :: "block list \<Rightarrow> search_state \<Rightarrow> bool" where
  "ml_bfs init st =
     (sorted (map fst (ss_queue st)) \<and>
      (\<forall>e\<in>set (ss_queue st). fst e \<le> fst (hd (ss_queue st)) + 1) \<and>
      (\<forall>b lvl mv e. ss_previousMoves st (b, lvl) = Some mv \<and> e \<in> set (ss_queue st) \<longrightarrow> lvl \<le> fst e) \<and>
      (\<forall>bs lvl mv. arrangement init bs \<and> 1 \<le> lvl \<and> ss_previousMoves st (the_board bs, lvl) = Some mv \<longrightarrow>
          \<not> winning bs \<and>
          (\<forall>i dir d. legal_slide bs i dir d \<longrightarrow>
             recorded st (bs[i := shift (bs ! i) dir d]) (lvl + 1) \<or>
             queued st (bs[i := shift (bs ! i) dir d]) (lvl + 1))) \<and>
      (recorded st init 1 \<or> queued st init 1))"

text \<open>
  \<open>ml_run k\<close> and \<open>cpp_run k\<close> are \<open>k\<close> iterations of the \<open>while\<close> loops that neither stop nor
  win; \<open>ml_expands\<close> and \<open>cpp_expands\<close> give the board the next iteration marks visited and
  expands, if any. \<open>ml_keys\<close> is the invariant behind the OCaml \<open>Hashtbl.replace\<close>: queue
  levels start at 1, and a key of a level from 1 on is stored only for a visited board.
\<close>

fun ml_run :: "nat \<Rightarrow> search_state \<Rightarrow> search_state option" where
  "ml_run 0 st = Some st"
| "ml_run (Suc k) st = (case step st of Continue st' \<Rightarrow> ml_run k st' | _ \<Rightarrow> None)"

fun cpp_run :: "nat \<Rightarrow> cpp_state \<Rightarrow> cpp_state option" where
  "cpp_run 0 st = Some st"
| "cpp_run (Suc k) st = (case Step st of Next st' \<Rightarrow> cpp_run k st' | _ \<Rightarrow> None)"

definition ml_expands :: "search_state \<Rightarrow> board option" where
  "ml_expands st =
     (case ss_queue st of
        [] \<Rightarrow> None
      | e # _ \<Rightarrow>
          (case make_board (snd (snd e)) of
             Inl _ \<Rightarrow> None
           | Inr b \<Rightarrow> if b \<in> ss_visited st then None else Some b))"

definition cpp_expands :: "cpp_state \<Rightarrow> Board option" where
  "cpp_expands st =
     (case cs_queue st of
        [] \<Rightarrow> None
      | bs # _ \<Rightarrow>
          (case renderBlocks bs of
             Inl _ \<Rightarrow> None
           | Inr b \<Rightarrow> if b \<in> cs_visited st then None else Some b))"

definition ml_keys :: "search_state \<Rightarrow> bool" where
  "ml_keys st \<longleftrightarrow>
     (\<forall>e\<in>set (ss_queue st). 1 \<le> fst e) \<and>
     (\<forall>b l. 1 \<le> l \<longrightarrow> ss_previousMoves st (b, l) \<noteq> None \<longrightarrow> b \<in> ss_visited st)"

definition cpp_initial :: "block list \<Rightarrow> cpp_state" where
  "cpp_initial blocks =
     \<lparr>cs_queue = [blocks], cs_visited = {},
      cs_previousMoves = [the_Board blocks \<mapsto> \<lparr>cm_blockId = - 1, cm_move = Left\<rparr>]\<rparr>"

text \<open>A configuration without a solution: the exit column is full.\<close>

definition stuck_board :: "block list" where
  "stuck_board =
     [\<lparr>blk_id = 0, blk_y = 2, blk_x = 0, blk_isHorizontal = True, blk_kind = Prisoner, blk_length = 2\<rparr>,
      \<lparr>blk_id = 1, blk_y = 0, blk_x = 5, blk_isHorizontal = False, blk_kind = Block, blk_length = 3\<rparr>,
      \<lparr>blk_id = 2, blk_y = 3, blk_x = 5, blk_isHorizontal = False, blk_kind = Block, blk_length = 3\<rparr>]"

text \<open>
  A board on which the two solvers disagree: eleven blocks that lock each other in a
  cycle around the prisoner, and a sequence of fourteen slides that frees it.
\<close>

definition interlocked_board :: "block list" where
  "interlocked_board =
     [\<lparr>blk_id = 0, blk_y = 3, blk_x = 3, blk_isHorizontal = True, blk_kind = Prisoner, blk_length = 2\<rparr>,
      \<lparr>blk_id = 1, blk_y = 1, blk_x = 3, blk_isHorizontal = True, blk_kind = Block, blk_length = 3\<rparr>,
      \<lparr>blk_id = 2, blk_y = 0, blk_x = 3, blk_isHorizontal = True, blk_kind = Block, blk_length = 3\<rparr>,
      \<lparr>blk_id = 3, blk_y = 1, blk_x = 0, blk_isHorizontal = False, blk_kind = Block, blk_length = 3\<rparr>,
      \<lparr>blk_id = 4, blk_y = 3, blk_x = 1, blk_isHorizontal = True, blk_kind = Block, blk_length = 2\<rparr>,
      \<lparr>blk_id = 5, blk_y = 4, blk_x = 2, blk_isHorizontal = True, blk_kind = Block, blk_length = 3\<rparr>,
      \<lparr>blk_id = 6, blk_y = 0, blk_x = 0, blk_isHorizontal = True, blk_kind = Block, blk_length = 2\<rparr>,
      \<lparr>blk_id = 7, blk_y = 0, blk_x = 2, blk_isHorizontal = False, blk_kind = Block, blk_length = 2\<rparr>,
      \<lparr>blk_id = 8, blk_y = 1, blk_x = 1, blk_isHorizontal = False, blk_kind = Block, blk_length = 2\<rparr>,
      \<lparr>blk_id = 9, blk_y = 2, blk_x = 5, blk_isHorizontal = False, blk_kind = Block, blk_length = 3\<rparr>,
      \<lparr>blk_id = 10, blk_y = 4, blk_x = 0, blk_isHorizontal = True, blk_kind = Block, blk_length = 2\<rparr>]"

definition interlocked_solution :: "(nat \<times> direction \<times> int) list" where
  "interlocked_solution =
     [(7, Down, 1), (6, Right, 1), (3, Up, 1), (4, Left, 1), (7, Down, 1), (1, Left, 1), (9, Up, 1),
      (5, Right, 1), (7, Down, 2), (4, Right, 1), (3, Down, 1), (6, Left, 1), (2, Left, 1), (9, Up, 1)]"

text \<open>A list whose prisoner stands upright, with a block in the column next to it.\<close>

definition vertical_prisoner_board :: "block list" where
  "vertical_prisoner_board =
     [\<lparr>blk_id = 0, blk_y = 1, blk_x = 2, blk_isHorizontal = False, blk_kind = Prisoner, blk_length = 2\<rparr>,
      \<lparr>blk_id = 1, blk_y = 1, blk_x = 3, blk_isHorizontal = False, blk_kind = Block, blk_length = 2\<rparr>]"

section \<open>Rendering a block list\<close>

lemma wf_grid_row: "wf_grid d \<Longrightarrow> 0 \<le> y \<Longrightarrow> y < 6 \<Longrightarrow> length (d ! nat y) = 6"
  by (simp add: wf_grid_def)

lemma set_tile_ok:
  assumes "wf_grid d" "in_grid y x"
  shows "\<exists>d'. set_tile d y x k = Inr d' \<and> wf_grid d' \<and>
          (\<forall>y' x'. in_grid y' x' \<longrightarrow>
             tile_at d' y' x' = (if y' = y \<and> x' = x then k else tile_at d y' x'))"
proof -
  from assms have y: "0 \<le> y" "y < 6" and x: "0 \<le> x" "x < 6" by (auto simp: in_grid_def)
  from assms(1) have len: "length d = 6" and row: "length (d ! nat y) = 6"
    using y by (auto simp: wf_grid_def)
  let ?d' = "d[nat y := (d ! nat y)[nat x := k]]"
  have eq: "set_tile d y x k = Inr ?d'"
    using y x len row by (simp add: set_tile_def)
  have wf: "wf_grid ?d'"
    using assms(1) row unfolding wf_grid_def
    by (auto dest!: set_update_subset_insert[THEN subsetD])
  have at: "tile_at ?d' y' x' = (if y' = y \<and> x' = x then k else tile_at d y' x')"
    if "in_grid y' x'" for y' x'
  proof -
    from that have y': "0 \<le> y'" "y' < 6" and x': "0 \<le> x'" "x' < 6" by (auto simp: in_grid_def)
    show ?thesis
    proof (cases "y' = y")
      case True
      then show ?thesis using y x x' len row
        by (auto simp: tile_at_def nth_list_update)
    next
      case False
      then have "nat y' \<noteq> nat y" using y y' by auto
      then show ?thesis using False by (simp add: tile_at_def)
    qed
  qed
  show ?thesis using eq wf at by blast
qed

lemma set_tile_err:
  assumes "wf_grid d" "\<not> in_grid y x"
  shows "set_tile d y x k = Inl Invalid_argument"
  using assms by (auto simp: set_tile_def in_grid_def wf_grid_def)

lemma put_tile_set_tile: "put_tile b i d = set_tile d (fst (tile_of b i)) (snd (tile_of b i)) (blk_kind b)"
  by (simp add: put_tile_def tile_of_def)

lemma foldE_put_tile_ok:
  assumes "wf_grid d" "\<forall>i\<in>set is. in_grid (fst (tile_of b i)) (snd (tile_of b i))"
  shows "\<exists>d'. foldE (put_tile b) is d = Inr d' \<and> wf_grid d' \<and>
          (\<forall>y x. in_grid y x \<longrightarrow>
             tile_at d' y x = (if (y, x) \<in> tile_of b ` set is then blk_kind b else tile_at d y x))"
  using assms
proof (induction "is" arbitrary: d)
  case Nil
  then show ?case by simp
next
  case (Cons i "is")
  from Cons.prems have ig: "in_grid (fst (tile_of b i)) (snd (tile_of b i))" by simp
  from set_tile_ok[OF Cons.prems(1) ig, of "blk_kind b"] obtain d1 where
    d1: "set_tile d (fst (tile_of b i)) (snd (tile_of b i)) (blk_kind b) = Inr d1" "wf_grid d1"
    and at1: "\<And>y' x'. in_grid y' x' \<Longrightarrow> tile_at d1 y' x' =
        (if y' = fst (tile_of b i) \<and> x' = snd (tile_of b i) then blk_kind b else tile_at d y' x')"
    by blast
  from Cons.IH[OF d1(2)] Cons.prems(2) obtain d' where
    d': "foldE (put_tile b) is d1 = Inr d'" "wf_grid d'"
    and at': "\<And>y x. in_grid y x \<Longrightarrow> tile_at d' y x =
        (if (y, x) \<in> tile_of b ` set is then blk_kind b else tile_at d1 y x)"
    by auto
  have "foldE (put_tile b) (i # is) d = Inr d'"
    using d1(1) d'(1) by (simp add: put_tile_set_tile)
  moreover have "tile_at d' y x = (if (y, x) \<in> tile_of b ` set (i # is) then blk_kind b else tile_at d y x)"
    if "in_grid y x" for y x
    using at'[OF that] at1[OF that] by (auto simp: prod_eq_iff)
  ultimately show ?case using d'(2) by blast
qed

lemma foldE_put_tile_err:
  assumes "wf_grid d" "\<exists>i\<in>set is. \<not> in_grid (fst (tile_of b i)) (snd (tile_of b i))"
  shows "foldE (put_tile b) is d = Inl Invalid_argument"
  using assms
proof (induction "is" arbitrary: d)
  case Nil
  then show ?case by simp
next
  case (Cons i "is")
  show ?case
  proof (cases "in_grid (fst (tile_of b i)) (snd (tile_of b i))")
    case True
    from set_tile_ok[OF Cons.prems(1) True, of "blk_kind b"] obtain d1 where
      d1: "set_tile d (fst (tile_of b i)) (snd (tile_of b i)) (blk_kind b) = Inr d1" "wf_grid d1"
      by blast
    from True Cons.prems(2) have "\<exists>i\<in>set is. \<not> in_grid (fst (tile_of b i)) (snd (tile_of b i))"
      by auto
    from Cons.IH[OF d1(2) this] d1(1) show ?thesis by (simp add: put_tile_set_tile)
  next
    case False
    then show ?thesis using set_tile_err[OF Cons.prems(1) False]
      by (simp add: put_tile_set_tile)
  qed
qed

lemma put_block_ok:
  assumes "wf_grid (brd_data brd)" "block_in_grid b"
  shows "\<exists>brd'. put_block b brd = Inr brd' \<and> wf_grid (brd_data brd') \<and>
          brd_hashes brd' = hash_block b # brd_hashes brd \<and>
          (\<forall>y x. in_grid y x \<longrightarrow>
             tile_at (brd_data brd') y x =
               (if (y, x) \<in> set (tiles b) then blk_kind b else tile_at (brd_data brd) y x))"
proof -
  have "\<forall>i\<in>set (map int [0..<nat (blk_length b)]). in_grid (fst (tile_of b i)) (snd (tile_of b i))"
    using assms(2) by (auto simp: block_in_grid_def tiles_def)
  from foldE_put_tile_ok[OF assms(1) this] obtain d' where
    "foldE (put_tile b) (map int [0..<nat (blk_length b)]) (brd_data brd) = Inr d'" "wf_grid d'"
    "\<And>y x. in_grid y x \<Longrightarrow> tile_at d' y x =
       (if (y, x) \<in> tile_of b ` set (map int [0..<nat (blk_length b)]) then blk_kind b
        else tile_at (brd_data brd) y x)"
    by blast
  then show ?thesis by (simp add: put_block_def tiles_def image_image)
qed

lemma put_block_err:
  assumes "wf_grid (brd_data brd)" "\<not> block_in_grid b"
  shows "put_block b brd = Inl Invalid_argument"
proof -
  have "\<exists>i\<in>set (map int [0..<nat (blk_length b)]). \<not> in_grid (fst (tile_of b i)) (snd (tile_of b i))"
    using assms(2) by (auto simp: block_in_grid_def tiles_def)
  from foldE_put_tile_err[OF assms(1) this] show ?thesis by (simp add: put_block_def)
qed

lemma find_append: "find P (xs @ ys) = (case find P xs of None \<Rightarrow> find P ys | Some x \<Rightarrow> Some x)"
  by (induction xs) auto

lemma foldE_put_block_ok:
  assumes "wf_grid (brd_data brd)" "\<forall>b\<in>set bs. block_in_grid b"
  shows "\<exists>brd'. foldE put_block bs brd = Inr brd' \<and> wf_grid (brd_data brd') \<and>
          brd_hashes brd' = rev (map hash_block bs) @ brd_hashes brd \<and>
          (\<forall>y x. in_grid y x \<longrightarrow>
             tile_at (brd_data brd') y x =
               (case find (\<lambda>b. (y, x) \<in> set (tiles b)) (rev bs) of
                  None \<Rightarrow> tile_at (brd_data brd) y x | Some b \<Rightarrow> blk_kind b))"
  using assms
proof (induction bs arbitrary: brd)
  case Nil
  then show ?case by simp
next
  case (Cons b bs)
  from Cons.prems have "block_in_grid b" by simp
  from put_block_ok[OF Cons.prems(1) this] obtain b1 where
    b1: "put_block b brd = Inr b1" "wf_grid (brd_data b1)"
        "brd_hashes b1 = hash_block b # brd_hashes brd"
    and at1: "\<And>y x. in_grid y x \<Longrightarrow> tile_at (brd_data b1) y x =
               (if (y, x) \<in> set (tiles b) then blk_kind b else tile_at (brd_data brd) y x)"
    by blast
  from Cons.IH[OF b1(2)] Cons.prems(2) obtain b2 where
    b2: "foldE put_block bs b1 = Inr b2" "wf_grid (brd_data b2)"
        "brd_hashes b2 = rev (map hash_block bs) @ brd_hashes b1"
    and at2: "\<And>y x. in_grid y x \<Longrightarrow> tile_at (brd_data b2) y x =
               (case find (\<lambda>b. (y, x) \<in> set (tiles b)) (rev bs) of
                  None \<Rightarrow> tile_at (brd_data b1) y x | Some b \<Rightarrow> blk_kind b)"
    by auto
  have "foldE put_block (b # bs) brd = Inr b2" using b1(1) b2(1) by simp
  moreover have "brd_hashes b2 = rev (map hash_block (b # bs)) @ brd_hashes brd"
    using b1(3) b2(3) by simp
  moreover have "tile_at (brd_data b2) y x =
               (case find (\<lambda>b. (y, x) \<in> set (tiles b)) (rev (b # bs)) of
                  None \<Rightarrow> tile_at (brd_data brd) y x | Some b \<Rightarrow> blk_kind b)"
    if "in_grid y x" for y x
    using at2[OF that] at1[OF that]
    by (auto simp: find_append split: option.splits)
  ultimately show ?case using b2(2) by blast
qed

lemma foldE_put_block_err:
  assumes "wf_grid (brd_data brd)" "\<exists>b\<in>set bs. \<not> block_in_grid b"
  shows "foldE put_block bs brd = Inl Invalid_argument"
  using assms
proof (induction bs arbitrary: brd)
  case Nil
  then show ?case by simp
next
  case (Cons b bs)
  show ?case
  proof (cases "block_in_grid b")
    case True
    from put_block_ok[OF Cons.prems(1) True] obtain b1 where
      b1: "put_block b brd = Inr b1" "wf_grid (brd_data b1)" by blast
    from True Cons.prems(2) have "\<exists>b\<in>set bs. \<not> block_in_grid b" by auto
    from Cons.IH[OF b1(2) this] b1(1) show ?thesis by simp
  next
    case False
    then show ?thesis using put_block_err[OF Cons.prems(1) False] by simp
  qed
qed

lemma wf_grid_empty: "wf_grid (brd_data empty_board)"
  by (simp add: wf_grid_def empty_board_def g_boardSize_def)

lemma tile_at_empty: "in_grid y x \<Longrightarrow> tile_at (brd_data empty_board) y x = Empty"
proof -
  assume "in_grid y x"
  then have "nat y < 6" "nat x < 6" by (auto simp: in_grid_def)
  then show ?thesis by (simp add: tile_at_def empty_board_def g_boardSize_def)
qed

lemma hashes_empty: "brd_hashes empty_board = []"
  by (simp add: empty_board_def)

lemma make_board_ok:
  assumes "\<forall>b\<in>set bs. block_in_grid b"
  shows "\<exists>brd. make_board bs = Inr brd \<and> wf_grid (brd_data brd) \<and>
          brd_hashes brd = rev (map hash_block bs) \<and>
          (\<forall>y x. in_grid y x \<longrightarrow> tile_at (brd_data brd) y x = occupant bs y x)"
proof -
  from foldE_put_block_ok[OF wf_grid_empty assms] obtain brd where
    "foldE put_block bs empty_board = Inr brd" "wf_grid (brd_data brd)"
    "brd_hashes brd = rev (map hash_block bs) @ brd_hashes empty_board"
    "\<And>y x. in_grid y x \<Longrightarrow> tile_at (brd_data brd) y x =
               (case find (\<lambda>b. (y, x) \<in> set (tiles b)) (rev bs) of
                  None \<Rightarrow> tile_at (brd_data empty_board) y x | Some b \<Rightarrow> blk_kind b)"
    by blast
  then show ?thesis
    by (auto simp: make_board_def occupant_def tile_at_empty hashes_empty
        split: option.splits)
qed

lemma make_board_err:
  assumes "\<exists>b\<in>set bs. \<not> block_in_grid b"
  shows "make_board bs = Inl Invalid_argument"
  using foldE_put_block_err[OF wf_grid_empty assms] by (simp add: make_board_def)

lemma make_board_Inr_iff: "(\<exists>brd. make_board bs = Inr brd) \<longleftrightarrow> (\<forall>b\<in>set bs. block_in_grid b)"
  using make_board_ok[of bs] make_board_err[of bs] by fastforce

lemma make_board_props:
  assumes "make_board bs = Inr brd"
  shows "wf_grid (brd_data brd)" "brd_hashes brd = rev (map hash_block bs)"
    "in_grid y x \<Longrightarrow> tile_at (brd_data brd) y x = occupant bs y x"
    "\<forall>b\<in>set bs. block_in_grid b"
proof -
  from assms show ig: "\<forall>b\<in>set bs. block_in_grid b" using make_board_Inr_iff by blast
  from make_board_ok[OF ig] assms
  show "wf_grid (brd_data brd)" "brd_hashes brd = rev (map hash_block bs)"
    "in_grid y x \<Longrightarrow> tile_at (brd_data brd) y x = occupant bs y x"
    by auto
qed

lemma grid_ext:
  assumes "wf_grid d" "wf_grid d'"
    and "\<And>y x. in_grid y x \<Longrightarrow> tile_at d y x = tile_at d' y x"
  shows "d = d'"
proof (rule nth_equalityI)
  show "length d = length d'" using assms by (simp add: wf_grid_def)
next
  fix i assume i: "i < length d"
  then have i6: "i < 6" using assms(1) by (simp add: wf_grid_def)
  have li: "length (d ! i) = 6" "length (d' ! i) = 6"
    using assms(1,2) i6 by (auto simp: wf_grid_def)
  show "d ! i = d' ! i"
  proof (rule nth_equalityI)
    show "length (d ! i) = length (d' ! i)" using li by simp
  next
    fix j assume "j < length (d ! i)"
    then have "in_grid (int i) (int j)" using i6 li by (simp add: in_grid_def)
    from assms(3)[OF this] show "d ! i ! j = d' ! i ! j" by (simp add: tile_at_def)
  qed
qed

subsection \<open>The flat C++ board\<close>

lemma inj6:
  assumes "0 \<le> x" "x < 6" "0 \<le> x'" "x' < 6"
  shows "(y' * 6 + x' = y * 6 + x) = (y' = y \<and> x' = (x::int))"
proof
  assume e: "y' * 6 + x' = y * 6 + x"
  have "(y' * 6 + x') mod 6 = x'" "(y * 6 + x) mod 6 = x" using assms by simp_all
  with e have "x' = x" by simp
  with e show "y' = y \<and> x' = x" by simp
qed simp

lemma Board_get_ok: "length b = 36 \<Longrightarrow> in_grid y x \<Longrightarrow> Board_get b y x = Inr (Tile_at b y x)"
  by (auto simp: Board_get_def Tile_at_def SIZE_def in_grid_def)

lemma Board_set_ok:
  assumes "length b = 36" "in_grid y x"
  shows "\<exists>b'. Board_set b y x k = Inr b' \<and> length b' = 36 \<and>
          (\<forall>y' x'. in_grid y' x' \<longrightarrow>
             Tile_at b' y' x' = (if y' = y \<and> x' = x then k else Tile_at b y' x'))"
proof -
  have r: "0 \<le> y * 6 + x" "y * 6 + x < 36" using assms(2) by (auto simp: in_grid_def)
  have "Tile_at (b[nat (y * 6 + x) := k]) y' x' = (if y' = y \<and> x' = x then k else Tile_at b y' x')"
    if "in_grid y' x'" for y' x'
  proof -
    have r': "0 \<le> y' * 6 + x'" "y' * 6 + x' < 36" using that by (auto simp: in_grid_def)
    have "(y' * 6 + x' = y * 6 + x) = (y' = y \<and> x' = x)"
      using that assms(2) unfolding in_grid_def by (intro inj6) auto
    then have "(nat (y' * 6 + x') = nat (y * 6 + x)) = (y' = y \<and> x' = x)"
      using r r' by auto
    then show ?thesis using r r' assms(1) by (auto simp: Tile_at_def nth_list_update)
  qed
  then show ?thesis using r assms(1) by (simp add: Board_set_def SIZE_def)
qed

lemma render_tile_Board_set:
  "render_tile p i tmp = Board_set tmp (fst (tile_of p i)) (snd (tile_of p i)) (blk_kind p)"
  by (simp add: render_tile_def tile_of_def)

lemma foldE_render_tile_ok:
  assumes "length d = 36" "\<forall>i\<in>set is. in_grid (fst (tile_of b i)) (snd (tile_of b i))"
  shows "\<exists>d'. foldE (render_tile b) is d = Inr d' \<and> length d' = 36 \<and>
          (\<forall>y x. in_grid y x \<longrightarrow>
             Tile_at d' y x = (if (y, x) \<in> tile_of b ` set is then blk_kind b else Tile_at d y x))"
  using assms
proof (induction "is" arbitrary: d)
  case Nil
  then show ?case by simp
next
  case (Cons i "is")
  from Cons.prems have ig: "in_grid (fst (tile_of b i)) (snd (tile_of b i))" by simp
  from Board_set_ok[OF Cons.prems(1) ig, of "blk_kind b"] obtain d1 where
    d1: "Board_set d (fst (tile_of b i)) (snd (tile_of b i)) (blk_kind b) = Inr d1" "length d1 = 36"
    and at1: "\<And>y' x'. in_grid y' x' \<Longrightarrow> Tile_at d1 y' x' =
        (if y' = fst (tile_of b i) \<and> x' = snd (tile_of b i) then blk_kind b else Tile_at d y' x')"
    by blast
  from Cons.IH[OF d1(2)] Cons.prems(2) obtain d' where
    d': "foldE (render_tile b) is d1 = Inr d'" "length d' = 36"
    and at': "\<And>y x. in_grid y x \<Longrightarrow> Tile_at d' y x =
        (if (y, x) \<in> tile_of b ` set is then blk_kind b else Tile_at d1 y x)"
    by auto
  have "foldE (render_tile b) (i # is) d = Inr d'"
    using d1(1) d'(1) by (simp add: render_tile_Board_set)
  moreover have "Tile_at d' y x = (if (y, x) \<in> tile_of b ` set (i # is) then blk_kind b else Tile_at d y x)"
    if "in_grid y x" for y x
    using at'[OF that] at1[OF that] by (auto simp: prod_eq_iff)
  ultimately show ?case using d'(2) by blast
qed

lemma render_block_ok:
  assumes "length d = 36" "block_in_grid b"
  shows "\<exists>d'. render_block b d = Inr d' \<and> length d' = 36 \<and>
          (\<forall>y x. in_grid y x \<longrightarrow>
             Tile_at d' y x = (if (y, x) \<in> set (tiles b) then blk_kind b else Tile_at d y x))"
proof -
  have "\<forall>i\<in>set (map int [0..<nat (blk_length b)]). in_grid (fst (tile_of b i)) (snd (tile_of b i))"
    using assms(2) by (auto simp: block_in_grid_def tiles_def)
  from foldE_render_tile_ok[OF assms(1) this] show ?thesis
    by (simp add: render_block_def tiles_def image_image)
qed

lemma foldE_render_block_ok:
  assumes "length d = 36" "\<forall>b\<in>set bs. block_in_grid b"
  shows "\<exists>d'. foldE render_block bs d = Inr d' \<and> length d' = 36 \<and>
          (\<forall>y x. in_grid y x \<longrightarrow>
             Tile_at d' y x =
               (case find (\<lambda>b. (y, x) \<in> set (tiles b)) (rev bs) of
                  None \<Rightarrow> Tile_at d y x | Some b \<Rightarrow> blk_kind b))"
  using assms
proof (induction bs arbitrary: d)
  case Nil
  then show ?case by simp
next
  case (Cons b bs)
  from Cons.prems have "block_in_grid b" by simp
  from render_block_ok[OF Cons.prems(1) this] obtain b1 where
    b1: "render_block b d = Inr b1" "length b1 = 36"
    and at1: "\<And>y x. in_grid y x \<Longrightarrow> Tile_at b1 y x =
               (if (y, x) \<in> set (tiles b) then blk_kind b else Tile_at d y x)"
    by blast
  from Cons.IH[OF b1(2)] Cons.prems(2) obtain b2 where
    b2: "foldE render_block bs b1 = Inr b2" "length b2 = 36"
    and at2: "\<And>y x. in_grid y x \<Longrightarrow> Tile_at b2 y x =
               (case find (\<lambda>b. (y, x) \<in> set (tiles b)) (rev bs) of
                  None \<Rightarrow> Tile_at b1 y x | Some b \<Rightarrow> blk_kind b)"
    by auto
  have "foldE render_block (b # bs) d = Inr b2" using b1(1) b2(1) by simp
  moreover have "Tile_at b2 y x =
               (case find (\<lambda>b. (y, x) \<in> set (tiles b)) (rev (b # bs)) of
                  None \<Rightarrow> Tile_at d y x | Some b \<Rightarrow> blk_kind b)"
    if "in_grid y x" for y x
    using at2[OF that] at1[OF that]
    by (auto simp: find_append split: option.splits)
  ultimately show ?case using b2(2) by blast
qed

lemma renderBlocks_ok:
  assumes "\<forall>b\<in>set bs. block_in_grid b"
  shows "\<exists>brd. renderBlocks bs = Inr brd \<and> length brd = 36 \<and>
          (\<forall>y x. in_grid y x \<longrightarrow> Tile_at brd y x = occupant bs y x)"
proof -
  have l: "length (replicate (nat (SIZE * SIZE)) Empty) = 36" by (simp add: SIZE_def)
  have e: "Tile_at (replicate (nat (SIZE * SIZE)) Empty) y x = Empty" if "in_grid y x" for y x
    using that by (auto simp: Tile_at_def SIZE_def in_grid_def)
  from foldE_render_block_ok[OF l assms] obtain brd where
    "foldE render_block bs (replicate (nat (SIZE * SIZE)) Empty) = Inr brd" "length brd = 36"
    "\<And>y x. in_grid y x \<Longrightarrow> Tile_at brd y x =
               (case find (\<lambda>b. (y, x) \<in> set (tiles b)) (rev bs) of
                  None \<Rightarrow> Tile_at (replicate (nat (SIZE * SIZE)) Empty) y x | Some b \<Rightarrow> blk_kind b)"
    by blast
  then show ?thesis
    by (auto simp: renderBlocks_def occupant_def e split: option.splits)
qed

lemma Board_ext:
  assumes "length b = 36" "length b' = 36"
    and "\<And>y x. in_grid y x \<Longrightarrow> Tile_at b y x = Tile_at b' y x"
  shows "b = b'"
proof (rule nth_equalityI)
  show "length b = length b'" using assms by simp
next
  fix i assume "i < length b"
  then have i: "i < 36" using assms(1) by simp
  have "in_grid (int (i div 6)) (int (i mod 6))" using i by (auto simp: in_grid_def)
  moreover have "int (i div 6) * 6 + int (i mod 6) = int i"
    by (metis mult.commute of_nat_add of_nat_mult of_nat_numeral div_mult_mod_eq)
  then have "nat (int (i div 6) * 6 + int (i mod 6)) = i" by simp
  ultimately show "b ! i = b' ! i" using assms(3)[of "int (i div 6)" "int (i mod 6)"]
    by (simp add: Tile_at_def)
qed

lemma get_tile_ok: "wf_grid d \<Longrightarrow> in_grid y x \<Longrightarrow> get_tile d y x = Inr (tile_at d y x)"
  by (auto simp: get_tile_def tile_at_def wf_grid_def in_grid_def)

lemma clearFrom_ok:
  assumes "wf_grid (brd_data brd)" "\<forall>x\<in>set xs. in_grid y x"
  shows "clearFrom brd y xs = Inr (\<forall>x\<in>set xs. tile_at (brd_data brd) y x = Empty)"
  using assms by (induction xs) (auto simp: get_tile_ok)

lemma scanRight_ok:
  assumes "length brd = 36" "\<forall>x\<in>set xs. in_grid y x"
  shows "scanRight brd y xs = Inr (\<forall>x\<in>set xs. Tile_at brd y x = Empty)"
  using assms by (induction xs) (auto simp: Board_get_ok)

lemma tiles_horizontal:
  "blk_isHorizontal b \<Longrightarrow> set (tiles b) = {(blk_y b, x) | x. blk_x b \<le> x \<and> x < blk_x b + blk_length b}"
proof -
  assume h: "blk_isHorizontal b"
  have "(\<lambda>i. (blk_y b, blk_x b + int i)) ` {0..<nat (blk_length b)} =
        {(blk_y b, x) | x. blk_x b \<le> x \<and> x < blk_x b + blk_length b}" (is "?L = ?R")
  proof
    show "?L \<subseteq> ?R" by auto
    show "?R \<subseteq> ?L"
    proof
      fix t assume "t \<in> ?R"
      then obtain x where x: "t = (blk_y b, x)" "blk_x b \<le> x" "x < blk_x b + blk_length b" by auto
      then have "nat (x - blk_x b) \<in> {0..<nat (blk_length b)}" by auto
      moreover have "t = (blk_y b, blk_x b + int (nat (x - blk_x b)))" using x by simp
      ultimately show "t \<in> ?L" by blast
    qed
  qed
  then show ?thesis using h by (simp add: tiles_def tile_of_def)
qed

lemma tiles_vertical:
  "\<not> blk_isHorizontal b \<Longrightarrow> set (tiles b) = {(y, blk_x b) | y. blk_y b \<le> y \<and> y < blk_y b + blk_length b}"
proof -
  assume h: "\<not> blk_isHorizontal b"
  have "(\<lambda>i. (blk_y b + int i, blk_x b)) ` {0..<nat (blk_length b)} =
        {(y, blk_x b) | y. blk_y b \<le> y \<and> y < blk_y b + blk_length b}" (is "?L = ?R")
  proof
    show "?L \<subseteq> ?R" by auto
    show "?R \<subseteq> ?L"
    proof
      fix t assume "t \<in> ?R"
      then obtain y where y: "t = (y, blk_x b)" "blk_y b \<le> y" "y < blk_y b + blk_length b" by auto
      then have "nat (y - blk_y b) \<in> {0..<nat (blk_length b)}" by auto
      moreover have "t = (blk_y b + int (nat (y - blk_y b)), blk_x b)" using y by simp
      ultimately show "t \<in> ?L" by blast
    qed
  qed
  then show ?thesis using h by (simp add: tiles_def tile_of_def)
qed

lemma block_in_grid_horizontal:
  "blk_isHorizontal b \<Longrightarrow> 1 \<le> blk_length b \<Longrightarrow>
   block_in_grid b \<longleftrightarrow> 0 \<le> blk_y b \<and> blk_y b < 6 \<and> 0 \<le> blk_x b \<and> blk_x b + blk_length b \<le> 6"
  unfolding block_in_grid_def by (simp add: tiles_horizontal in_grid_def) presburger

lemma block_in_grid_vertical:
  "\<not> blk_isHorizontal b \<Longrightarrow> 1 \<le> blk_length b \<Longrightarrow>
   block_in_grid b \<longleftrightarrow> 0 \<le> blk_x b \<and> blk_x b < 6 \<and> 0 \<le> blk_y b \<and> blk_y b + blk_length b \<le> 6"
  unfolding block_in_grid_def by (simp add: tiles_vertical in_grid_def) presburger

lemma right_of_footprint:
  assumes "blk_isHorizontal it" "1 \<le> blk_length it"
  shows "(\<forall>t\<in>set (tiles it). snd t < x) \<longleftrightarrow> blk_x it + blk_length it \<le> x"
proof
  assume a: "\<forall>t\<in>set (tiles it). snd t < x"
  have "(blk_y it, blk_x it + blk_length it - 1) \<in> set (tiles it)"
    using assms by (simp add: tiles_horizontal)
  with a show "blk_x it + blk_length it \<le> x" by fastforce
next
  assume "blk_x it + blk_length it \<le> x"
  then show "\<forall>t\<in>set (tiles it). snd t < x" using assms by (auto simp: tiles_horizontal)
qed

lemma allClear_ok:
  assumes mb: "make_board blocks = Inr brd"
    and it: "it \<in> set blocks" "blk_isHorizontal it" "1 \<le> blk_length it"
  shows "allClear brd it =
     Inr (\<forall>x. (\<forall>t\<in>set (tiles it). snd t < x) \<and> x < 6 \<longrightarrow> tile_at (brd_data brd) (blk_y it) x = Empty)"
proof -
  from make_board_props[OF mb] it(1) have wf: "wf_grid (brd_data brd)" and ig: "block_in_grid it"
    by auto
  from ig it have b: "0 \<le> blk_y it" "blk_y it < 6" "0 \<le> blk_x it" "blk_x it + blk_length it \<le> 6"
    by (auto simp: block_in_grid_horizontal)
  have "\<forall>x\<in>set [blk_x it + blk_length it..g_boardSize - 1]. in_grid (blk_y it) x"
    using b it by (auto simp: in_grid_def g_boardSize_def)
  from clearFrom_ok[OF wf this]
  show ?thesis using it by (auto simp: allClear_def right_of_footprint g_boardSize_def)
qed

lemma canEscape_ok:
  assumes mb: "renderBlocks blocks = Inr brd" "\<forall>b\<in>set blocks. block_in_grid b"
    and it: "it \<in> set blocks" "blk_isHorizontal it" "1 \<le> blk_length it"
  shows "canEscape brd it =
     Inr (\<forall>x. (\<forall>t\<in>set (tiles it). snd t < x) \<and> x < 6 \<longrightarrow> Tile_at brd (blk_y it) x = Empty)"
proof -
  from renderBlocks_ok[OF mb(2)] mb(1) have len: "length brd = 36" by auto
  from mb(2) it have b: "0 \<le> blk_y it" "blk_y it < 6" "0 \<le> blk_x it" "blk_x it + blk_length it \<le> 6"
    by (auto simp: block_in_grid_horizontal)
  have "\<forall>x\<in>set [blk_x it + blk_length it..SIZE - 1]. in_grid (blk_y it) x"
    using b it by (auto simp: in_grid_def SIZE_def)
  from scanRight_ok[OF len this]
  show ?thesis using it by (auto simp: canEscape_def right_of_footprint SIZE_def)
qed

lemma find_Some_set: "find P xs = Some x \<Longrightarrow> x \<in> set xs \<and> P x"
  by (induction xs) (auto split: if_splits)

section \<open>The move generators\<close>

lemma crop_map_takeWhile:
  "cropAtFirstFullTile (map f xs) = map (\<lambda>x. the (f x)) (takeWhile (\<lambda>x. f x \<noteq> None) xs)"
  by (induction xs) (auto split: option.splits)

lemma set_takeWhile_upto:
  "set (takeWhile P [a..b]) = {d. a \<le> d \<and> d \<le> b \<and> (\<forall>k. a \<le> k \<and> k \<le> d \<longrightarrow> P k)}"
proof (induction a b rule: upto.induct)
  case (1 i j)
  show ?case
  proof (cases "i \<le> j")
    case False
    then show ?thesis by auto
  next
    case True
    then have u: "[i..j] = i # [i + 1..j]" by (simp add: upto_rec1)
    show ?thesis
    proof (cases "P i")
      case False
      then show ?thesis using u by auto
    next
      case Pi: True
      have "{d. i \<le> d \<and> d \<le> j \<and> (\<forall>k. i \<le> k \<and> k \<le> d \<longrightarrow> P k)} =
            insert i {d. i + 1 \<le> d \<and> d \<le> j \<and> (\<forall>k. i + 1 \<le> k \<and> k \<le> d \<longrightarrow> P k)}"
        (is "?L = insert i ?R")
      proof
        show "?L \<subseteq> insert i ?R" by auto
        show "insert i ?R \<subseteq> ?L"
        proof
          fix d assume "d \<in> insert i ?R"
          then consider "d = i" | "d \<in> ?R" by auto
          then show "d \<in> ?L"
          proof cases
            case 1
            then show ?thesis using True Pi by auto
          next
            case 2
            have "P k" if "i \<le> k" "k \<le> d" for k
            proof (cases "k = i")
              case True then show ?thesis using Pi by simp
            next
              case False then show ?thesis using 2 that by auto
            qed
            then show ?thesis using 2 by auto
          qed
        qed
      qed
      then show ?thesis using u Pi 1[OF True] by simp
    qed
  qed
qed

lemma isEmptyTile_free:
  assumes "1 \<le> d"
  shows "isEmptyTile brd blk (- d) 0 = free_tile (brd_data brd) (entered blk Left d)"
    "isEmptyTile brd blk d 0 = free_tile (brd_data brd) (entered blk Right d)"
    "isEmptyTile brd blk 0 (- d) = free_tile (brd_data brd) (entered blk Up d)"
    "isEmptyTile brd blk 0 d = free_tile (brd_data brd) (entered blk Down d)"
  using assms
  by (auto simp: isEmptyTile_def free_tile_def entered_def tileToCheckCoord_def Let_def
      in_grid_def tile_at_def g_boardSize_def)

lemma makeMove_slide:
  assumes "1 \<le> d"
  shows "makeMove brd blk (- d) 0 Left =
           (if free_tile (brd_data brd) (entered blk Left d) then Some (slide_move blk Left d) else None)"
    "makeMove brd blk d 0 Right =
           (if free_tile (brd_data brd) (entered blk Right d) then Some (slide_move blk Right d) else None)"
    "makeMove brd blk 0 (- d) Up =
           (if free_tile (brd_data brd) (entered blk Up d) then Some (slide_move blk Up d) else None)"
    "makeMove brd blk 0 d Down =
           (if free_tile (brd_data brd) (entered blk Down d) then Some (slide_move blk Down d) else None)"
  using assms
  by (simp_all add: makeMove_def isEmptyTile_free slide_move_def shift_def)

lemma crop_scan:
  assumes "\<And>d. 1 \<le> d \<Longrightarrow> f d =
     (if free_tile (brd_data brd) (entered blk dir d) then Some (slide_move blk dir d) else None)"
  shows "cropAtFirstFullTile (map f [1..g_boardSize - 1]) = scan brd blk dir"
proof -
  have "cropAtFirstFullTile (map f [1..n]) =
        map (slide_move blk dir) (takeWhile (\<lambda>d. free_tile (brd_data brd) (entered blk dir d)) [1..n])" for n
    unfolding crop_map_takeWhile
  proof -
    have 1: "takeWhile (\<lambda>x. f x \<noteq> None) [1..n] =
          takeWhile (\<lambda>d. free_tile (brd_data brd) (entered blk dir d)) [1..n]"
      by (rule takeWhile_cong) (auto simp: assms)
    have "map (\<lambda>x. the (f x)) (takeWhile (\<lambda>d. free_tile (brd_data brd) (entered blk dir d)) [1..n]) =
          map (slide_move blk dir) (takeWhile (\<lambda>d. free_tile (brd_data brd) (entered blk dir d)) [1..n])"
    proof (rule map_cong[OF refl])
      fix x assume x: "x \<in> set (takeWhile (\<lambda>d. free_tile (brd_data brd) (entered blk dir d)) [1..n])"
      then have "1 \<le> x" using set_takeWhileD[OF x] by auto
      moreover have "free_tile (brd_data brd) (entered blk dir x)" using set_takeWhileD[OF x] by auto
      ultimately show "the (f x) = slide_move blk dir x" by (simp add: assms)
    qed
    with 1 show "map (\<lambda>x. the (f x)) (takeWhile (\<lambda>x. f x \<noteq> None) [1..n]) =
          map (slide_move blk dir) (takeWhile (\<lambda>d. free_tile (brd_data brd) (entered blk dir d)) [1..n])"
      by simp
  qed
  then show ?thesis by (simp add: scan_def)
qed

lemma findBlockMoves_scan:
  "findBlockMoves brd blk =
     (if blk_isHorizontal blk then scan brd blk Left @ scan brd blk Right
      else scan brd blk Up @ scan brd blk Down)"
  unfolding findBlockMoves_def
  by (simp add: crop_scan[where dir=Left] crop_scan[where dir=Right] crop_scan[where dir=Up]
      crop_scan[where dir=Down] makeMove_slide)

lemma set_scan:
  "set (scan brd blk dir) =
     {slide_move blk dir d | d. 1 \<le> d \<and> d \<le> 5 \<and> path_clear (brd_data brd) blk dir d}"
  unfolding scan_def set_map set_takeWhile_upto path_clear_def g_boardSize_def
  by auto

lemma findBlockMoves_iff:
  "bm \<in> set (findBlockMoves brd blk) \<longleftrightarrow>
     (\<exists>dir d. along blk dir \<and> 1 \<le> d \<and> d \<le> 5 \<and> path_clear (brd_data brd) blk dir d \<and>
              bm = slide_move blk dir d)"
  unfolding findBlockMoves_scan along_def
  by (cases "blk_isHorizontal blk") (auto simp: set_scan)

lemma foldE_appends:
  assumes "foldE f xs s = Inr s'"
    and "\<And>x s s'. x \<in> set xs \<Longrightarrow> f x s = Inr s' \<Longrightarrow> \<exists>cs. g s' = g s @ cs \<and> (\<forall>c\<in>set cs. P c)"
  shows "\<exists>cs. g s' = g s @ cs \<and> (\<forall>c\<in>set cs. P c)"
  using assms
proof (induction xs arbitrary: s)
  case Nil
  then show ?case by simp
next
  case (Cons x xs)
  from Cons.prems(1) obtain s1 where s1: "f x s = Inr s1" "foldE f xs s1 = Inr s'"
    by (auto split: sum.splits)
  from Cons.prems(2)[OF _ s1(1)] obtain cs1 where c1: "g s1 = g s @ cs1" "\<forall>c\<in>set cs1. P c"
    by auto
  from Cons.IH[OF s1(2)] Cons.prems(2) obtain cs2 where c2: "g s' = g s1 @ cs2" "\<forall>c\<in>set cs2. P c"
    by (metis list.set_intros(2))
  have "g s' = g s @ (cs1 @ cs2)" using c1 c2 by simp
  moreover have "\<forall>c\<in>set (cs1 @ cs2). P c" using c1 c2 by auto
  ultimately show ?case by blast
qed

lemma shift_moved:
  assumes "along b dir" "1 \<le> d" "i < length bs" "bs ! i = b"
  shows "one_block_moved bs (bs[i := shift b dir d])"
  using assms unfolding one_block_moved_def along_def
  by (intro conjI exI[of _ i]) (auto simp: shift_def split: direction.splits if_splits)

lemma add_child_cases:
  assumes "add_child vis level blocks i bm q = Inr q'"
  shows "\<exists>b. make_board (blocks[i := fst bm]) = Inr b \<and>
           q' = (if b \<notin> vis then q @ [(level + 1, snd bm, blocks[i := fst bm])] else q)"
  using assms by (auto simp: add_child_def Let_def split: sum.splits)

lemma expand_frame:
  assumes "expand vis level brd blocks q = Inr q'"
  shows "\<exists>cs. q' = q @ cs \<and> (\<forall>e\<in>set cs. one_block_moved blocks (snd (snd e)))"
proof -
  have child: "\<exists>cs. id s' = id s @ cs \<and> (\<forall>e\<in>set cs. one_block_moved blocks (snd (snd e)))"
    if "bm \<in> set (findBlockMoves brd (blocks ! i))" "i < length blocks"
      "add_child vis level blocks i bm s = Inr s'" for bm i s s'
  proof -
    from that(1) obtain dir d where d: "along (blocks ! i) dir" "1 \<le> d" "bm = slide_move (blocks ! i) dir d"
      by (auto simp: findBlockMoves_iff)
    have "one_block_moved blocks (blocks[i := fst bm])"
      using shift_moved[OF d(1,2) that(2) refl] d(3) by (simp add: slide_move_def)
    with add_child_cases[OF that(3)] show ?thesis by auto
  qed
  have blk: "\<exists>cs. id s' = id s @ cs \<and> (\<forall>e\<in>set cs. one_block_moved blocks (snd (snd e)))"
    if "i \<in> set [0..<length blocks]" "add_children vis level brd blocks i s = Inr s'" for i s s'
    using that(2) unfolding add_children_def
    by (rule foldE_appends) (use that(1) child in auto)
  from foldE_appends[where g=id, OF assms[unfolded expand_def] blk] show ?thesis by simp
qed

lemma tryMove_cases:
  assumes "tryMove brd blocks i inside ty tx moved d s = Inr s'"
  shows "(\<not> (inside \<and> Board_get brd ty tx = Inr Empty) \<and> s' = s) \<or>
         (inside \<and> Board_get brd ty tx = Inr Empty \<and>
          (\<exists>b. renderBlocks (blocks[i := moved]) = Inr b \<and>
               s' = (fst s @ [blocks[i := moved]],
                     map_insert (snd s) b \<lparr>cm_blockId = blk_id (blocks ! i), cm_move = d\<rparr>)))"
  using assms
  by (auto simp: tryMove_def COMMON_BODY_def split: if_splits sum.splits)

lemma expandBlock_children:
  assumes "expandBlock brd blocks i s = Inr s'"
  shows "\<exists>cs. fst s' = fst s @ cs \<and>
           (\<forall>c\<in>set cs. \<exists>dir. can_step brd (blocks ! i) dir \<and> c = blocks[i := shift (blocks ! i) dir 1])"
proof (cases "blk_isHorizontal (blocks ! i)")
  case True
  with assms obtain s1 where
    1: "tryMove brd blocks i (blk_x (blocks ! i) > 0) (blk_y (blocks ! i)) (blk_x (blocks ! i) - 1)
          ((blocks ! i)\<lparr>blk_x := blk_x (blocks ! i) - 1\<rparr>) Left s = Inr s1"
    and 2: "tryMove brd blocks i (blk_x (blocks ! i) + blk_length (blocks ! i) < SIZE) (blk_y (blocks ! i))
          (blk_x (blocks ! i) + blk_length (blocks ! i)) ((blocks ! i)\<lparr>blk_x := blk_x (blocks ! i) + 1\<rparr>) Right s1 = Inr s'"
    by (auto simp: expandBlock_def Let_def split: sum.splits)
  have a: "\<exists>cs. fst s1 = fst s @ cs \<and>
           (\<forall>c\<in>set cs. \<exists>dir. can_step brd (blocks ! i) dir \<and> c = blocks[i := shift (blocks ! i) dir 1])"
    using tryMove_cases[OF 1] True
    by (auto simp: can_step_def along_def entered_def shift_def intro!: exI[of _ Left])
  have b: "\<exists>cs. fst s' = fst s1 @ cs \<and>
           (\<forall>c\<in>set cs. \<exists>dir. can_step brd (blocks ! i) dir \<and> c = blocks[i := shift (blocks ! i) dir 1])"
    using tryMove_cases[OF 2] True
    by (auto simp: can_step_def along_def entered_def shift_def intro!: exI[of _ Right])
  from a b show ?thesis by (metis UnE append.assoc set_append)
next
  case False
  with assms obtain s1 where
    1: "tryMove brd blocks i (blk_y (blocks ! i) > 0) (blk_y (blocks ! i) - 1) (blk_x (blocks ! i))
          ((blocks ! i)\<lparr>blk_y := blk_y (blocks ! i) - 1\<rparr>) Up s = Inr s1"
    and 2: "tryMove brd blocks i (blk_y (blocks ! i) + blk_length (blocks ! i) < SIZE)
          (blk_y (blocks ! i) + blk_length (blocks ! i)) (blk_x (blocks ! i))
          ((blocks ! i)\<lparr>blk_y := blk_y (blocks ! i) + 1\<rparr>) Down s1 = Inr s'"
    by (auto simp: expandBlock_def Let_def split: sum.splits)
  have a: "\<exists>cs. fst s1 = fst s @ cs \<and>
           (\<forall>c\<in>set cs. \<exists>dir. can_step brd (blocks ! i) dir \<and> c = blocks[i := shift (blocks ! i) dir 1])"
    using tryMove_cases[OF 1] False
    by (auto simp: can_step_def along_def entered_def shift_def intro!: exI[of _ Up])
  have b: "\<exists>cs. fst s' = fst s1 @ cs \<and>
           (\<forall>c\<in>set cs. \<exists>dir. can_step brd (blocks ! i) dir \<and> c = blocks[i := shift (blocks ! i) dir 1])"
    using tryMove_cases[OF 2] False
    by (auto simp: can_step_def along_def entered_def shift_def intro!: exI[of _ Down])
  from a b show ?thesis by (metis UnE append.assoc set_append)
qed

lemma expandAll_frame:
  assumes "expandAll brd blocks s = Inr s'"
  shows "\<exists>cs. fst s' = fst s @ cs \<and> (\<forall>c\<in>set cs. one_block_moved blocks c)"
proof -
  have blk: "\<exists>cs. fst s' = fst s @ cs \<and> (\<forall>c\<in>set cs. one_block_moved blocks c)"
    if "i \<in> set [0..<length blocks]" "expandBlock brd blocks i s = Inr s'" for i s s'
  proof -
    from expandBlock_children[OF that(2)] obtain cs where
      cs: "fst s' = fst s @ cs"
        "\<forall>c\<in>set cs. \<exists>dir. can_step brd (blocks ! i) dir \<and> c = blocks[i := shift (blocks ! i) dir 1]"
      by blast
    have "one_block_moved blocks c" if "c \<in> set cs" for c
    proof -
      from cs(2) that obtain dir where "can_step brd (blocks ! i) dir" "c = blocks[i := shift (blocks ! i) dir 1]"
        by blast
      then show ?thesis using shift_moved[of "blocks ! i" dir 1 i blocks] \<open>i \<in> set [0..<length blocks]\<close>
        by (simp add: can_step_def)
    qed
    with cs(1) show ?thesis by blast
  qed
  from foldE_appends[where g=fst, OF assms[unfolded expandAll_def] blk] show ?thesis by simp
qed

section \<open>Slides keep the blocks apart and inside the grid\<close>

lemma find_None_set: "find P xs = None \<longleftrightarrow> (\<forall>x\<in>set xs. \<not> P x)"
  by (induction xs) auto

lemma occupant_Empty_iff:
  assumes "\<forall>b\<in>set bs. blk_kind b \<noteq> Empty"
  shows "occupant bs y x = Empty \<longleftrightarrow> (\<forall>b\<in>set bs. (y, x) \<notin> set (tiles b))"
proof (cases "find (\<lambda>b. (y, x) \<in> set (tiles b)) (rev bs)")
  case None
  then have "\<forall>b\<in>set bs. (y, x) \<notin> set (tiles b)" by (simp add: find_None_set)
  then show ?thesis using None by (simp add: occupant_def)
next
  case (Some b)
  then have "b \<in> set bs" "(y, x) \<in> set (tiles b)" by (auto dest: find_Some_set)
  then show ?thesis using Some assms by (auto simp: occupant_def)
qed

lemma distinct_tiles: "distinct (tiles b)"
  unfolding tiles_def distinct_map
  by (auto simp: inj_on_def tile_of_def distinct_map)

lemma distinct_concat_tiles:
  "distinct (concat (map tiles bs)) \<longleftrightarrow>
     (\<forall>i<length bs. \<forall>j<length bs. i \<noteq> j \<longrightarrow> set (tiles (bs ! i)) \<inter> set (tiles (bs ! j)) = {})"
proof (induction bs)
  case Nil
  then show ?case by simp
next
  case (Cons b bs)
  let ?N = "\<lambda>xs. \<forall>i<length xs. \<forall>j<length xs. i \<noteq> j \<longrightarrow> set (tiles (xs ! i)) \<inter> set (tiles (xs ! j)) = {}"
  have "?N (b # bs) \<longleftrightarrow> ?N bs \<and> (\<forall>j<length bs. set (tiles b) \<inter> set (tiles (bs ! j)) = {})"
  proof
    assume n: "?N (b # bs)"
    have "?N bs"
    proof (intro allI impI)
      fix i j assume "i < length bs" "j < length bs" "i \<noteq> j"
      then show "set (tiles (bs ! i)) \<inter> set (tiles (bs ! j)) = {}"
        using n[rule_format, of "Suc i" "Suc j"] by simp
    qed
    moreover have "\<forall>j<length bs. set (tiles b) \<inter> set (tiles (bs ! j)) = {}"
    proof (intro allI impI)
      fix j assume "j < length bs"
      then show "set (tiles b) \<inter> set (tiles (bs ! j)) = {}"
        using n[rule_format, of 0 "Suc j"] by simp
    qed
    ultimately show "?N bs \<and> (\<forall>j<length bs. set (tiles b) \<inter> set (tiles (bs ! j)) = {})" by simp
  next
    assume a: "?N bs \<and> (\<forall>j<length bs. set (tiles b) \<inter> set (tiles (bs ! j)) = {})"
    show "?N (b # bs)"
    proof (intro allI impI)
      fix i j assume ij: "i < length (b # bs)" "j < length (b # bs)" "i \<noteq> j"
      show "set (tiles ((b # bs) ! i)) \<inter> set (tiles ((b # bs) ! j)) = {}"
      proof (cases i)
        case 0
        then obtain j' where "j = Suc j'" using ij by (cases j) auto
        then show ?thesis using 0 a ij by auto
      next
        case (Suc i')
        show ?thesis
        proof (cases j)
          case 0
          then show ?thesis using Suc a ij by auto
        next
          case (Suc j')
          then show ?thesis using \<open>i = Suc i'\<close> a ij by auto
        qed
      qed
    qed
  qed
  moreover have "(\<forall>j<length bs. set (tiles b) \<inter> set (tiles (bs ! j)) = {}) \<longleftrightarrow>
        set (tiles b) \<inter> (\<Union>x\<in>set bs. set (tiles x)) = {}"
  proof -
    have "(\<forall>j<length bs. set (tiles b) \<inter> set (tiles (bs ! j)) = {}) \<longleftrightarrow>
          (\<forall>x\<in>set bs. set (tiles b) \<inter> set (tiles x) = {})"
      by (simp add: all_set_conv_all_nth)
    also have "\<dots> \<longleftrightarrow> set (tiles b) \<inter> (\<Union>x\<in>set bs. set (tiles x)) = {}" by blast
    finally show ?thesis .
  qed
  ultimately show ?case using Cons.IH by (simp add: distinct_tiles)
qed

lemma tiles_shift:
  assumes "t \<in> set (tiles (shift b dir d))" "along b dir" "1 \<le> d"
  shows "t \<in> set (tiles b) \<or> (\<exists>k\<in>{1..d}. t = entered b dir k)"
proof (cases "blk_isHorizontal b")
  case True
  then have dir: "dir = Left \<or> dir = Right" using assms(2) by (simp add: along_def)
  have hs: "blk_isHorizontal (shift b dir d)" using True by (simp add: shift_def split: direction.splits)
  from dir show ?thesis
  proof
    assume l: "dir = Left"
    from assms(1) obtain c where c: "t = (blk_y b, c)" "blk_x b - d \<le> c" "c < blk_x b - d + blk_length b"
      using l unfolding tiles_horizontal[OF hs] by (auto simp: shift_def)
    show ?thesis
    proof (cases "blk_x b \<le> c")
      case True
      then show ?thesis using c assms(3) \<open>blk_isHorizontal b\<close> by (auto simp: tiles_horizontal)
    next
      case False
      then have "blk_x b - c \<in> {1..d}" "t = entered b dir (blk_x b - c)"
        using c l by (auto simp: entered_def)
      then show ?thesis by blast
    qed
  next
    assume r: "dir = Right"
    from assms(1) obtain c where c: "t = (blk_y b, c)" "blk_x b + d \<le> c" "c < blk_x b + d + blk_length b"
      using r unfolding tiles_horizontal[OF hs] by (auto simp: shift_def)
    show ?thesis
    proof (cases "c < blk_x b + blk_length b")
      case True
      then show ?thesis using c assms(3) \<open>blk_isHorizontal b\<close> by (auto simp: tiles_horizontal)
    next
      case False
      then have "c - (blk_x b + blk_length b) + 1 \<in> {1..d}"
        "t = entered b dir (c - (blk_x b + blk_length b) + 1)"
        using c r by (auto simp: entered_def)
      then show ?thesis by blast
    qed
  qed
next
  case False
  then have dir: "dir = Up \<or> dir = Down" using assms(2) by (simp add: along_def)
  have hs: "\<not> blk_isHorizontal (shift b dir d)" using False by (simp add: shift_def split: direction.splits)
  from dir show ?thesis
  proof
    assume l: "dir = Up"
    from assms(1) obtain c where c: "t = (c, blk_x b)" "blk_y b - d \<le> c" "c < blk_y b - d + blk_length b"
      using l unfolding tiles_vertical[OF hs] by (auto simp: shift_def)
    show ?thesis
    proof (cases "blk_y b \<le> c")
      case True
      then show ?thesis using c assms(3) \<open>\<not> blk_isHorizontal b\<close> by (auto simp: tiles_vertical)
    next
      case False
      then have "blk_y b - c \<in> {1..d}" "t = entered b dir (blk_y b - c)"
        using c l by (auto simp: entered_def)
      then show ?thesis by blast
    qed
  next
    assume r: "dir = Down"
    from assms(1) obtain c where c: "t = (c, blk_x b)" "blk_y b + d \<le> c" "c < blk_y b + d + blk_length b"
      using r unfolding tiles_vertical[OF hs] by (auto simp: shift_def)
    show ?thesis
    proof (cases "c < blk_y b + blk_length b")
      case True
      then show ?thesis using c assms(3) \<open>\<not> blk_isHorizontal b\<close> by (auto simp: tiles_vertical)
    next
      case False
      then have "c - (blk_y b + blk_length b) + 1 \<in> {1..d}"
        "t = entered b dir (c - (blk_y b + blk_length b) + 1)"
        using c r by (auto simp: entered_def)
      then show ?thesis by blast
    qed
  qed
qed

lemma shift_fields [simp]:
  "blk_id (shift b dir d) = blk_id b" "blk_kind (shift b dir d) = blk_kind b"
  "blk_length (shift b dir d) = blk_length b" "blk_isHorizontal (shift b dir d) = blk_isHorizontal b"
  by (simp_all add: shift_def split: direction.splits)

lemma placed_slide:
  assumes p: "placed bs" and l: "legal_slide bs i dir d"
  shows "placed (bs[i := shift (bs ! i) dir d])"
proof -
  let ?nb = "shift (bs ! i) dir d"
  let ?c = "bs[i := ?nb]"
  from l have i: "i < length bs" and al: "along (bs ! i) dir" and d: "1 \<le> d"
    and fr: "\<And>k. k \<in> {1..d} \<Longrightarrow> free_in bs (entered (bs ! i) dir k)"
    by (auto simp: legal_slide_def)
  from p have all: "\<And>b. b \<in> set bs \<Longrightarrow> block_in_grid b \<and> 1 \<le> blk_length b \<and> blk_kind b \<noteq> Empty"
    and no: "\<And>a b. a < length bs \<Longrightarrow> b < length bs \<Longrightarrow> a \<noteq> b \<Longrightarrow>
               set (tiles (bs ! a)) \<inter> set (tiles (bs ! b)) = {}"
    by (auto simp: placed_def distinct_concat_tiles)
  have kinds: "\<forall>b\<in>set bs. blk_kind b \<noteq> Empty" using all by blast
  have bi: "bs ! i \<in> set bs" using i by simp
  have new: "in_grid (fst t) (snd t) \<and> (\<forall>j<length bs. j \<noteq> i \<longrightarrow> t \<notin> set (tiles (bs ! j)))"
    if "t \<in> set (tiles ?nb)" for t
  proof -
    from tiles_shift[OF that al d] show ?thesis
    proof
      assume o: "t \<in> set (tiles (bs ! i))"
      then have "in_grid (fst t) (snd t)" using all[OF bi] by (auto simp: block_in_grid_def)
      moreover have "t \<notin> set (tiles (bs ! j))" if "j < length bs" "j \<noteq> i" for j
        using no[OF i that(1)] that(2) o by auto
      ultimately show ?thesis by blast
    next
      assume "\<exists>k\<in>{1..d}. t = entered (bs ! i) dir k"
      then obtain k where k: "k \<in> {1..d}" "t = entered (bs ! i) dir k" by blast
      from fr[OF k(1)] k(2) have f: "in_grid (fst t) (snd t)" "occupant bs (fst t) (snd t) = Empty"
        by (auto simp: free_in_def)
      from f(2) have "\<forall>b\<in>set bs. t \<notin> set (tiles b)"
        using occupant_Empty_iff[OF kinds, of "fst t" "snd t"] by simp
      then show ?thesis using f(1) by auto
    qed
  qed
  have a1: "block_in_grid b \<and> 1 \<le> blk_length b \<and> blk_kind b \<noteq> Empty" if "b \<in> set ?c" for b
  proof -
    from that have "b = ?nb \<or> b \<in> set bs" by (auto dest: set_update_subset_insert[THEN subsetD])
    then show ?thesis
    proof
      assume "b = ?nb"
      then show ?thesis using new all[OF bi] by (auto simp: block_in_grid_def)
    qed (use all in blast)
  qed
  have a2: "set (tiles (?c ! a)) \<inter> set (tiles (?c ! b)) = {}"
    if "a < length ?c" "b < length ?c" "a \<noteq> b" for a b
  proof (cases "a = i")
    case True
    then have "b \<noteq> i" "b < length bs" using that by auto
    then show ?thesis using True new i by (auto simp: nth_list_update)
  next
    case False
    show ?thesis
    proof (cases "b = i")
      case True
      then show ?thesis using False new i that by (auto simp: nth_list_update)
    next
      case bf: False
      then show ?thesis using False no[of a b] that by (simp add: nth_list_update)
    qed
  qed
  show ?thesis unfolding placed_def distinct_concat_tiles using a1 a2 by blast
qed

lemma free_tile_free_in:
  assumes "make_board bs = Inr brd"
  shows "free_tile (brd_data brd) t = free_in bs t"
  using make_board_props(3)[OF assms] by (auto simp: free_tile_def free_in_def)

lemma generated_legal:
  assumes "make_board bs = Inr brd" "i < length bs"
  shows "bm \<in> set (findBlockMoves brd (bs ! i)) \<longleftrightarrow>
     (\<exists>dir d. legal_slide bs i dir d \<and> d \<le> 5 \<and> bm = slide_move (bs ! i) dir d)"
  unfolding findBlockMoves_iff legal_slide_def path_clear_def free_tile_free_in[OF assms(1)]
  using assms(2) by auto

lemma ml_child_placed:
  assumes "placed bs" "ml_child bs c"
  shows "placed c"
proof -
  from assms(2) obtain brd i bm where b: "make_board bs = Inr brd" "i < length bs"
    "bm \<in> set (findBlockMoves brd (bs ! i))" "c = bs[i := fst bm]"
    by (auto simp: ml_child_def)
  from b(3) obtain dir d where "legal_slide bs i dir d" "bm = slide_move (bs ! i) dir d"
    unfolding generated_legal[OF b(1,2)] by blast
  with placed_slide[OF assms(1) this(1)] b(4) show ?thesis by (simp add: slide_move_def)
qed

lemma can_step_legal:
  assumes "placed bs" "renderBlocks bs = Inr brd" "i < length bs" "can_step brd (bs ! i) dir"
  shows "legal_slide bs i dir 1"
proof -
  from assms(1) have ig: "\<forall>b\<in>set bs. block_in_grid b" by (simp add: placed_def)
  from renderBlocks_ok[OF ig] assms(2) have len: "length brd = 36"
    and occ: "\<And>y x. in_grid y x \<Longrightarrow> Tile_at brd y x = occupant bs y x" by auto
  let ?b = "bs ! i"
  let ?e = "entered ?b dir 1"
  have bi: "block_in_grid ?b" "1 \<le> blk_length ?b" using assms(1,3) by (auto simp: placed_def)
  from assms(4) have al: "along ?b dir" and g: "Board_get brd (fst ?e) (snd ?e) = Inr Empty"
    by (auto simp: can_step_def)
  have ige: "in_grid (fst ?e) (snd ?e)"
  proof (cases "blk_isHorizontal ?b")
    case True
    then show ?thesis using assms(4) bi
      by (auto simp: block_in_grid_horizontal can_step_def along_def entered_def in_grid_def SIZE_def
          split: direction.splits)
  next
    case False
    then show ?thesis using assms(4) bi
      by (auto simp: block_in_grid_vertical can_step_def along_def entered_def in_grid_def SIZE_def
          split: direction.splits)
  qed
  have "occupant bs (fst ?e) (snd ?e) = Empty"
    using Board_get_ok[OF len ige] occ[OF ige] g by simp
  then show ?thesis using ige al assms(3) by (simp add: legal_slide_def free_in_def)
qed

lemma expandAll_children:
  assumes "expandAll brd blocks s = Inr s'"
  shows "\<exists>cs. fst s' = fst s @ cs \<and>
           (\<forall>c\<in>set cs. \<exists>i dir. i < length blocks \<and> can_step brd (blocks ! i) dir \<and>
               c = blocks[i := shift (blocks ! i) dir 1])"
proof -
  have blk: "\<exists>cs. fst s' = fst s @ cs \<and>
           (\<forall>c\<in>set cs. \<exists>i dir. i < length blocks \<and> can_step brd (blocks ! i) dir \<and>
               c = blocks[i := shift (blocks ! i) dir 1])"
    if "i \<in> set [0..<length blocks]" "expandBlock brd blocks i s = Inr s'" for i s s'
    using expandBlock_children[OF that(2)] that(1) by fastforce
  from foldE_appends[where g=fst, OF assms[unfolded expandAll_def] blk] show ?thesis by simp
qed

lemma cpp_child_placed:
  assumes "placed bs" "cpp_child bs c"
  shows "placed c"
proof -
  from assms(2) obtain brd s s' where b: "renderBlocks bs = Inr brd" "expandAll brd bs s = Inr s'"
    "c \<in> set (drop (length (fst s)) (fst s'))"
    by (auto simp: cpp_child_def)
  from expandAll_children[OF b(2)] obtain cs where cs: "fst s' = fst s @ cs"
    "\<forall>c\<in>set cs. \<exists>i dir. i < length bs \<and> can_step brd (bs ! i) dir \<and>
               c = bs[i := shift (bs ! i) dir 1]"
    by blast
  from b(3) cs(1) have "c \<in> set cs" by simp
  with cs(2) obtain i dir where
    i: "i < length bs" "can_step brd (bs ! i) dir" "c = bs[i := shift (bs ! i) dir 1]"
    by blast
  from placed_slide[OF assms(1) can_step_legal[OF assms(1) b(1) i(1,2)]] i(3) show ?thesis by simp
qed

section \<open>What an expansion appends\<close>

lemma the_board_eq: "make_board bs = Inr brd \<Longrightarrow> the_board bs = brd"
  by (simp add: the_board_def)

lemma the_Board_eq: "renderBlocks bs = Inr brd \<Longrightarrow> the_Board bs = brd"
  by (simp add: the_Board_def)

lemma placed_make_board: "placed bs \<Longrightarrow> make_board bs = Inr (the_board bs)"
  using make_board_ok[of bs] by (auto simp: placed_def the_board_def)

lemma placed_renderBlocks: "placed bs \<Longrightarrow> renderBlocks bs = Inr (the_Board bs)"
  using renderBlocks_ok[of bs] by (auto simp: placed_def the_Board_def)

lemma foldE_concat:
  assumes "\<And>x s. x \<in> set xs \<Longrightarrow> f x s = Inr (s @ g x)"
  shows "foldE f xs s = Inr (s @ concat (map g xs))"
  using assms by (induction xs arbitrary: s) auto

lemma foldE_foldl:
  assumes "\<And>x s. x \<in> set xs \<Longrightarrow> f x s = Inr (h s x)"
  shows "foldE f xs s = Inr (foldl h s xs)"
  using assms by (induction xs arbitrary: s) auto

lemma add_child_eq:
  assumes "placed bs" "make_board bs = Inr brd" "i < length bs" "bm \<in> set (findBlockMoves brd (bs ! i))"
  shows "add_child vis level bs i bm q = Inr (q @ child_entries vis level bs i bm)"
proof -
  have "ml_child bs (bs[i := fst bm])" unfolding ml_child_def using assms(2-4)
    by (intro exI[of _ brd] exI[of _ i] exI[of _ bm]) auto
  from placed_make_board[OF ml_child_placed[OF assms(1) this]]
  have "make_board (bs[i := fst bm]) = Inr (the_board (bs[i := fst bm]))" .
  then show ?thesis by (simp add: add_child_def child_entries_def Let_def)
qed

lemma expand_eq:
  assumes "placed bs" "make_board bs = Inr brd"
  shows "expand vis level brd bs q = Inr (q @ children vis level brd bs)"
  unfolding expand_def children_def
proof (rule foldE_concat)
  fix i s assume "i \<in> set [0..<length bs]"
  then have i: "i < length bs" by simp
  show "add_children vis level brd bs i s =
        Inr (s @ concat (map (child_entries vis level bs i) (findBlockMoves brd (bs ! i))))"
    unfolding add_children_def
    by (rule foldE_concat) (simp add: add_child_eq[OF assms i])
qed

lemma can_step_iff:
  assumes "placed bs" "renderBlocks bs = Inr brd" "i < length bs"
  shows "can_step brd (bs ! i) dir \<longleftrightarrow> legal_slide bs i dir 1"
proof
  assume "can_step brd (bs ! i) dir"
  from can_step_legal[OF assms this] show "legal_slide bs i dir 1" .
next
  assume l: "legal_slide bs i dir 1"
  from assms(1) have ig: "\<forall>b\<in>set bs. block_in_grid b" by (simp add: placed_def)
  from renderBlocks_ok[OF ig] assms(2) have len: "length brd = 36"
    and occ: "\<And>y x. in_grid y x \<Longrightarrow> Tile_at brd y x = occupant bs y x" by auto
  let ?b = "bs ! i"
  let ?e = "entered ?b dir 1"
  from l have al: "along ?b dir" and f: "free_in bs ?e" by (auto simp: legal_slide_def)
  then have ige: "in_grid (fst ?e) (snd ?e)" and e: "occupant bs (fst ?e) (snd ?e) = Empty"
    by (auto simp: free_in_def)
  have g: "Board_get brd (fst ?e) (snd ?e) = Inr Empty"
    using Board_get_ok[OF len ige] occ[OF ige] e by simp
  have bi: "block_in_grid ?b" "1 \<le> blk_length ?b" using assms(1,3) by (auto simp: placed_def)
  have "case dir of Left \<Rightarrow> blk_x ?b > 0 | Right \<Rightarrow> blk_x ?b + blk_length ?b < SIZE
         | Up \<Rightarrow> blk_y ?b > 0 | Down \<Rightarrow> blk_y ?b + blk_length ?b < SIZE"
    using ige by (auto simp: entered_def in_grid_def SIZE_def split: direction.splits)
  then show "can_step brd ?b dir" using al g by (simp add: can_step_def)
qed

lemma tryMove_eq:
  assumes "placed bs" "renderBlocks bs = Inr brd" "i < length bs"
    and "inside \<and> Board_get brd ty tx = Inr Empty \<longleftrightarrow> can_step brd (bs ! i) dir"
    and "inside \<Longrightarrow> in_grid ty tx"
    and "moved = shift (bs ! i) dir 1"
  shows "tryMove brd bs i inside ty tx moved dir s =
     Inr (if can_step brd (bs ! i) dir
          then push_kid s (bs[i := shift (bs ! i) dir 1], \<lparr>cm_blockId = blk_id (bs ! i), cm_move = dir\<rparr>)
          else s)"
proof (cases "can_step brd (bs ! i) dir")
  case True
  from placed_slide[OF assms(1) can_step_legal[OF assms(1-3) True]]
  have "renderBlocks (bs[i := shift (bs ! i) dir 1]) = Inr (the_Board (bs[i := shift (bs ! i) dir 1]))"
    by (rule placed_renderBlocks)
  then show ?thesis using True assms(4,6)
    by (simp add: tryMove_def COMMON_BODY_def push_kid_def)
next
  case False
  from assms(1) have ig: "\<forall>b\<in>set bs. block_in_grid b" by (simp add: placed_def)
  from renderBlocks_ok[OF ig] assms(2) have len: "length brd = 36" by auto
  show ?thesis
  proof (cases inside)
    case True
    from Board_get_ok[OF len assms(5)[OF True]] False assms(4) True
    show ?thesis by (auto simp: tryMove_def)
  next
    case f: False
    then show ?thesis using False by (simp add: tryMove_def)
  qed
qed

lemma expandBlock_eq:
  assumes "placed bs" "renderBlocks bs = Inr brd" "i < length bs"
  shows "expandBlock brd bs i s = Inr (foldl push_kid s (Kids brd bs i))"
proof -
  let ?b = "bs ! i"
  have bi: "block_in_grid ?b" "1 \<le> blk_length ?b" using assms(1,3) by (auto simp: placed_def)
  show ?thesis
  proof (cases "blk_isHorizontal ?b")
    case True
    have g: "0 \<le> blk_y ?b" "blk_y ?b < 6" "0 \<le> blk_x ?b" "blk_x ?b + blk_length ?b \<le> 6"
      using bi True by (auto simp: block_in_grid_horizontal)
    have 1: "tryMove brd bs i (blk_x ?b > 0) (blk_y ?b) (blk_x ?b - 1) (?b\<lparr>blk_x := blk_x ?b - 1\<rparr>) Left s' =
        Inr (if can_step brd ?b Left
          then push_kid s' (bs[i := shift ?b Left 1], \<lparr>cm_blockId = blk_id ?b, cm_move = Left\<rparr>)
          else s')" for s'
      by (rule tryMove_eq[OF assms])
         (use True g bi in \<open>auto simp: can_step_def along_def entered_def shift_def in_grid_def\<close>)
    have 2: "tryMove brd bs i (blk_x ?b + blk_length ?b < SIZE) (blk_y ?b) (blk_x ?b + blk_length ?b)
          (?b\<lparr>blk_x := blk_x ?b + 1\<rparr>) Right s' =
        Inr (if can_step brd ?b Right
          then push_kid s' (bs[i := shift ?b Right 1], \<lparr>cm_blockId = blk_id ?b, cm_move = Right\<rparr>)
          else s')" for s'
      by (rule tryMove_eq[OF assms])
         (use True g bi in \<open>auto simp: can_step_def along_def entered_def shift_def in_grid_def SIZE_def\<close>)
    have n: "\<not> can_step brd ?b Up" "\<not> can_step brd ?b Down"
      using True by (auto simp: can_step_def along_def)
    show ?thesis using True n
      by (simp add: expandBlock_def Let_def 1 2 Kids_def)
  next
    case False
    have g: "0 \<le> blk_x ?b" "blk_x ?b < 6" "0 \<le> blk_y ?b" "blk_y ?b + blk_length ?b \<le> 6"
      using bi False by (auto simp: block_in_grid_vertical)
    have 1: "tryMove brd bs i (blk_y ?b > 0) (blk_y ?b - 1) (blk_x ?b) (?b\<lparr>blk_y := blk_y ?b - 1\<rparr>) Up s' =
        Inr (if can_step brd ?b Up
          then push_kid s' (bs[i := shift ?b Up 1], \<lparr>cm_blockId = blk_id ?b, cm_move = Up\<rparr>)
          else s')" for s'
      by (rule tryMove_eq[OF assms])
         (use False g bi in \<open>auto simp: can_step_def along_def entered_def shift_def in_grid_def\<close>)
    have 2: "tryMove brd bs i (blk_y ?b + blk_length ?b < SIZE) (blk_y ?b + blk_length ?b) (blk_x ?b)
          (?b\<lparr>blk_y := blk_y ?b + 1\<rparr>) Down s' =
        Inr (if can_step brd ?b Down
          then push_kid s' (bs[i := shift ?b Down 1], \<lparr>cm_blockId = blk_id ?b, cm_move = Down\<rparr>)
          else s')" for s'
      by (rule tryMove_eq[OF assms])
         (use False g bi in \<open>auto simp: can_step_def along_def entered_def shift_def in_grid_def SIZE_def\<close>)
    have n: "\<not> can_step brd ?b Left" "\<not> can_step brd ?b Right"
      using False by (auto simp: can_step_def along_def)
    show ?thesis using False n
      by (simp add: expandBlock_def Let_def 1 2 Kids_def)
  qed
qed

lemma expandAll_eq:
  assumes "placed bs" "renderBlocks bs = Inr brd"
  shows "expandAll brd bs s = Inr (foldl push_kid s (Children brd bs))"
proof -
  have "expandAll brd bs s = Inr (foldl (\<lambda>s i. foldl push_kid s (Kids brd bs i)) s [0..<length bs])"
    unfolding expandAll_def
    by (rule foldE_foldl) (simp add: expandBlock_eq[OF assms])
  moreover have "foldl (\<lambda>s i. foldl push_kid s (Kids brd bs i)) s xs =
                 foldl push_kid s (concat (map (Kids brd bs) xs))" for xs
    by (induction xs arbitrary: s) auto
  ultimately show ?thesis by (simp add: Children_def)
qed

lemma fst_foldl_push_kid: "fst (foldl push_kid s ks) = fst s @ map fst ks"
  by (induction ks arbitrary: s) (auto simp: push_kid_def)

lemma Kids_set:
  "set (map fst (Kids brd bs i)) = {bs[i := shift (bs ! i) dir 1] | dir. can_step brd (bs ! i) dir}"
proof -
  have u: "set [Left, Right, Up, Down] = UNIV"
    using direction.exhaust by auto
  have "map fst (Kids brd bs i) =
        map (\<lambda>d. bs[i := shift (bs ! i) d 1]) (filter (can_step brd (bs ! i)) [Left, Right, Up, Down])"
    unfolding Kids_def map_map comp_def fst_conv ..
  then have "set (map fst (Kids brd bs i)) =
        (\<lambda>d. bs[i := shift (bs ! i) d 1]) ` {d \<in> set [Left, Right, Up, Down]. can_step brd (bs ! i) d}"
    by (simp only: set_map set_filter)
  also have "\<dots> = (\<lambda>d. bs[i := shift (bs ! i) d 1]) ` {d. can_step brd (bs ! i) d}"
    unfolding u by simp
  also have "\<dots> = {bs[i := shift (bs ! i) dir 1] | dir. can_step brd (bs ! i) dir}"
    by blast
  finally show ?thesis .
qed

lemma Children_set:
  "set (map fst (Children brd bs)) =
     {bs[i := shift (bs ! i) dir 1] | i dir. i < length bs \<and> can_step brd (bs ! i) dir}"
proof -
  have "set (map fst (Children brd bs)) = (\<Union>i\<in>{0..<length bs}. set (map fst (Kids brd bs i)))"
    by (simp add: Children_def map_concat comp_def)
  also have "\<dots> = (\<Union>i\<in>{0..<length bs}. {bs[i := shift (bs ! i) dir 1] | dir. can_step brd (bs ! i) dir})"
    unfolding Kids_set ..
  also have "\<dots> = {bs[i := shift (bs ! i) dir 1] | i dir. i < length bs \<and> can_step brd (bs ! i) dir}"
    by fastforce
  finally show ?thesis .
qed

lemma placed_blocked_board: "placed blocked_board"
  by code_simp

lemma blocked_board_down2: "legal_slide blocked_board 1 Down 2"
  by code_simp

lemma blocked_board_down1: "legal_slide blocked_board 1 Down 1"
  by code_simp

section \<open>Rendering and the order of the list\<close>

lemma mset_concat_tiles:
  assumes "mset bs = mset bs'"
  shows "mset (concat (map tiles bs)) = mset (concat (map tiles bs'))"
proof -
  have "mset (concat (map tiles xs)) = (\<Sum>b\<in>#mset xs. mset (tiles b))" for xs
    by (induction xs) auto
  then show ?thesis using assms by simp
qed

lemma placed_perm:
  assumes "placed bs" "mset bs = mset bs'"
  shows "placed bs'"
proof -
  have "set bs = set bs'" using assms(2) by (rule mset_eq_setD)
  moreover have "distinct (concat (map tiles bs'))"
    using mset_eq_imp_distinct_iff[OF mset_concat_tiles[OF assms(2)]] assms(1)
    by (simp add: placed_def)
  ultimately show ?thesis using assms(1) by (simp add: placed_def)
qed

lemma occupant_covering:
  assumes "placed bs" "b \<in> set bs" "(y, x) \<in> set (tiles b)"
  shows "occupant bs y x = blk_kind b"
proof -
  from assms(2,3) have "find (\<lambda>b. (y, x) \<in> set (tiles b)) (rev bs) \<noteq> None"
    by (auto simp: find_None_set)
  then obtain b' where f: "find (\<lambda>b. (y, x) \<in> set (tiles b)) (rev bs) = Some b'" by blast
  then have b': "b' \<in> set bs" "(y, x) \<in> set (tiles b')" by (auto dest: find_Some_set)
  from assms(2) obtain i where i: "i < length bs" "bs ! i = b" by (auto simp: in_set_conv_nth)
  from b'(1) obtain j where j: "j < length bs" "bs ! j = b'" by (auto simp: in_set_conv_nth)
  have "i = j"
  proof (rule ccontr)
    assume "i \<noteq> j"
    with assms(1) i(1) j(1) have "set (tiles (bs ! i)) \<inter> set (tiles (bs ! j)) = {}"
      by (simp add: placed_def distinct_concat_tiles)
    with assms(3) b'(2) i(2) j(2) show False by auto
  qed
  with i j have "b' = b" by simp
  with f show ?thesis by (simp add: occupant_def)
qed

lemma occupant_perm:
  assumes "placed bs" "mset bs = mset bs'"
  shows "occupant bs y x = occupant bs' y x"
proof -
  have s: "set bs = set bs'" using assms(2) by (rule mset_eq_setD)
  have p': "placed bs'" by (rule placed_perm[OF assms])
  show ?thesis
  proof (cases "\<exists>b\<in>set bs. (y, x) \<in> set (tiles b)")
    case True
    then obtain b where b: "b \<in> set bs" "(y, x) \<in> set (tiles b)" by blast
    from occupant_covering[OF assms(1) b] occupant_covering[OF p' _ b(2)] b(1) s
    show ?thesis by simp
  next
    case False
    have k: "\<forall>b\<in>set bs. blk_kind b \<noteq> Empty" "\<forall>b\<in>set bs'. blk_kind b \<noteq> Empty"
      using assms(1) p' by (auto simp: placed_def)
    from False s show ?thesis
      using occupant_Empty_iff[OF k(1), of y x] occupant_Empty_iff[OF k(2), of y x] by auto
  qed
qed

lemma the_Board_props:
  assumes "placed bs"
  shows "length (the_Board bs) = 36" "in_grid y x \<Longrightarrow> Tile_at (the_Board bs) y x = occupant bs y x"
  using renderBlocks_ok[of bs] assms placed_renderBlocks[OF assms] by (auto simp: placed_def)

lemma the_board_props:
  assumes "placed bs"
  shows "wf_grid (brd_data (the_board bs))" "brd_hashes (the_board bs) = rev (map hash_block bs)"
    "in_grid y x \<Longrightarrow> tile_at (brd_data (the_board bs)) y x = occupant bs y x"
  using make_board_props[OF placed_make_board[OF assms]] by auto

section \<open>The OCaml search loop\<close>

lemma hash_x:
  assumes "0 \<le> a" "a < 256" "0 \<le> y" "y < 256"
  shows "drop_bit 16 (a OR push_bit 8 y OR push_bit 16 x) = (x::int)"
proof -
  have "drop_bit 16 a = 0" using assms by (simp add: drop_bit_eq_div)
  moreover have "drop_bit 16 (push_bit 8 y) = 0" using assms by (simp add: drop_bit_eq_div push_bit_eq_mult)
  moreover have "drop_bit 16 (push_bit 16 x) = x" by (simp add: drop_bit_eq_div push_bit_eq_mult)
  ultimately show ?thesis by simp
qed

lemma hash_y:
  assumes "0 \<le> a" "a < 256" "0 \<le> y" "y < 256"
  shows "take_bit 8 (drop_bit 8 (a OR push_bit 8 y OR push_bit 16 x)) = (y::int)"
proof -
  have "drop_bit 8 a = 0" using assms by (simp add: drop_bit_eq_div)
  moreover have "drop_bit 8 (push_bit 8 y) = y" by (simp add: drop_bit_eq_div push_bit_eq_mult)
  moreover have "drop_bit 8 (push_bit 16 x) = push_bit 8 x" by (simp add: drop_bit_eq_div push_bit_eq_mult)
  moreover have "take_bit 8 (push_bit 8 x) = 0" by (simp add: take_bit_eq_mod push_bit_eq_mult)
  moreover have "take_bit 8 y = y" using assms by (simp add: take_bit_eq_mod)
  ultimately show ?thesis by simp
qed

lemma placed_block_bounds:
  assumes "placed bs" "b \<in> set bs"
  shows "0 \<le> blk_y b" "blk_y b < 6" "0 \<le> blk_x b" "blk_x b < 6"
proof -
  from assms have g: "block_in_grid b" "1 \<le> blk_length b" by (auto simp: placed_def)
  show "0 \<le> blk_y b" "blk_y b < 6" "0 \<le> blk_x b" "blk_x b < 6"
    using g by (cases "blk_isHorizontal b";
        auto simp: block_in_grid_horizontal block_in_grid_vertical)+
qed

lemma hash_block_inj:
  assumes "placed bs" "b \<in> set bs" "placed bs'" "b' \<in> set bs'"
    and "shape b = shape b'" "0 \<le> blk_id b" "blk_id b < 256"
    and "hash_block b = hash_block b'"
  shows "b = b'"
proof -
  note 1 = placed_block_bounds[OF assms(1,2)]
  note 2 = placed_block_bounds[OF assms(3,4)]
  from assms(5) have s: "blk_id b = blk_id b'" "blk_isHorizontal b = blk_isHorizontal b'"
    "blk_kind b = blk_kind b'" "blk_length b = blk_length b'" by (auto simp: shape_def)
  have y: "blk_y b < 256" "blk_y b' < 256" using 1 2 by auto
  have id': "0 \<le> blk_id b'" "blk_id b' < 256" using assms(6,7) s(1) by auto
  have xb: "drop_bit 16 (hash_block b) = blk_x b" unfolding hash_block_def
    by (rule hash_x[OF assms(6,7) 1(1) y(1)])
  have xb': "drop_bit 16 (hash_block b') = blk_x b'" unfolding hash_block_def
    by (rule hash_x[OF id' 2(1) y(2)])
  have yb: "take_bit 8 (drop_bit 8 (hash_block b)) = blk_y b" unfolding hash_block_def
    by (rule hash_y[OF assms(6,7) 1(1) y(1)])
  have yb': "take_bit 8 (drop_bit 8 (hash_block b')) = blk_y b'" unfolding hash_block_def
    by (rule hash_y[OF id' 2(1) y(2)])
  have "blk_x b = blk_x b'" using xb xb' assms(8) by (simp only:)
  moreover have "blk_y b = blk_y b'" using yb yb' assms(8) by (simp only:)
  ultimately show ?thesis using s by (intro block.equality) auto
qed

lemma the_board_inj:
  assumes v: "valid_config init" and a: "arrangement init bs" "arrangement init bs'"
    and e: "the_board bs = the_board bs'"
  shows "bs = bs'"
proof (rule nth_equalityI)
  from a have len: "length bs = length init" "length bs' = length init"
    by (auto simp: arrangement_def dest: map_eq_imp_length_eq)
  then show "length bs = length bs'" by simp
  fix i assume i: "i < length bs"
  from a have p: "placed bs" "placed bs'" by (auto simp: arrangement_def)
  from e have "map hash_block bs = map hash_block bs'"
    using the_board_props(2)[OF p(1)] the_board_props(2)[OF p(2)] by simp
  then have h: "hash_block (bs ! i) = hash_block (bs' ! i)"
    using i len by (metis nth_map)
  from a have "map shape bs ! i = map shape init ! i" "map shape bs' ! i = map shape init ! i"
    by (simp_all add: arrangement_def)
  then have sh: "shape (bs ! i) = shape (init ! i)" "shape (bs' ! i) = shape (init ! i)"
    using i len by simp_all
  have "init ! i \<in> set init" using i len by simp
  with v have "0 \<le> blk_id (init ! i)" "blk_id (init ! i) < 256" by (auto simp: valid_config_def)
  then have id: "0 \<le> blk_id (bs ! i)" "blk_id (bs ! i) < 256" using sh(1) by (auto simp: shape_def)
  show "bs ! i = bs' ! i"
    by (rule hash_block_inj[OF p(1) _ p(2) _ _ id h]) (use i len sh in auto)
qed

lemma arrangement_init: "valid_config init \<Longrightarrow> arrangement init init"
  by (simp add: valid_config_def arrangement_def)

lemma arrangement_ids:
  assumes "arrangement init bs"
  shows "map blk_id bs = map blk_id init" "length bs = length init"
proof -
  from assms have "map shape bs = map shape init" by (simp add: arrangement_def)
  then have "map fst (map shape bs) = map fst (map shape init)" by simp
  then show "map blk_id bs = map blk_id init" by (simp add: shape_def comp_def)
  then show "length bs = length init" by (rule map_eq_imp_length_eq)
qed

lemma arrangement_distinct_ids:
  "valid_config init \<Longrightarrow> arrangement init bs \<Longrightarrow> distinct (map blk_id bs)"
  by (simp add: arrangement_ids valid_config_def)

lemma arrangement_id_bounds:
  assumes "valid_config init" "arrangement init bs" "b \<in> set bs"
  shows "0 \<le> blk_id b" "blk_id b < 256"
proof -
  from assms(3) have "blk_id b \<in> set (map blk_id bs)" by simp
  then have "blk_id b \<in> set (map blk_id init)" by (simp only: arrangement_ids[OF assms(2)])
  then show "0 \<le> blk_id b" "blk_id b < 256" using assms(1) by (auto simp: valid_config_def)
qed

lemma arrangement_slide:
  assumes "arrangement init bs" "legal_slide bs i dir d"
  shows "arrangement init (bs[i := shift (bs ! i) dir d])"
proof -
  from assms(2) have i: "i < length bs" by (simp add: legal_slide_def)
  have "map shape (bs[i := shift (bs ! i) dir d]) = (map shape bs)[i := shape (bs ! i)]"
    by (simp add: map_update shape_def)
  also have "\<dots> = map shape bs" using i by (metis length_map list_update_id nth_map)
  finally show ?thesis using assms placed_slide[of bs i dir d] by (simp add: arrangement_def)
qed

lemma trail_arrangement:
  assumes "valid_config init" "trail init prev lvl mv bs snaps moves"
  shows "arrangement init bs"
  using assms(2) by (induction rule: trail.induct) (auto simp: arrangement_init[OF assms(1)] arrangement_slide)

lemma trail_shape:
  assumes "trail init prev lvl mv bs snaps moves"
  shows "int (length moves) = lvl - 1 \<and> length snaps = Suc (length moves) \<and> last snaps = bs \<and> 1 \<le> lvl"
  using assms by (induction rule: trail.induct) auto

lemma trail_mono:
  assumes "trail init prev lvl mv bs snaps moves" "prev \<subseteq>\<^sub>m prev'"
  shows "trail init prev' lvl mv bs snaps moves"
  using assms(1)
proof (induction rule: trail.induct)
  case start
  show ?case by (rule trail.start)
next
  case (extend lvl pmv pbs snaps moves i dir d)
  from extend.hyps(2) assms(2) have "prev' (the_board pbs, lvl) = Some pmv"
    by (auto simp: map_le_def dom_def)
  from trail.extend[OF extend.IH this extend.hyps(3)] show ?case .
qed

lemma unshift:
  "along b dir \<Longrightarrow>
   (case dir of
      Left \<Rightarrow> (shift b dir d)\<lparr>blk_x := blk_x (shift b dir d) + d\<rparr>
    | Right \<Rightarrow> (shift b dir d)\<lparr>blk_x := blk_x (shift b dir d) - d\<rparr>
    | Up \<Rightarrow> (shift b dir d)\<lparr>blk_y := blk_y (shift b dir d) + d\<rparr>
    | Down \<Rightarrow> (shift b dir d)\<lparr>blk_y := blk_y (shift b dir d) - d\<rparr>) = b"
  by (cases dir) (simp_all add: shift_def)

lemma distinct_ids_nth:
  assumes "distinct (map blk_id bs)" "i < length bs" "j < length bs" "blk_id (bs ! j) = blk_id (bs ! i)"
  shows "j = i"
  using assms by (metis distinct_conv_nth length_map nth_map)

lemma backStep_slide:
  assumes "distinct (map blk_id pbs)" "legal_slide pbs i dir d"
  shows "backStep (snd (slide_move (pbs ! i) dir d)) (pbs[i := shift (pbs ! i) dir d]) = pbs"
proof (rule nth_equalityI)
  show "length (backStep (snd (slide_move (pbs ! i) dir d)) (pbs[i := shift (pbs ! i) dir d])) = length pbs"
    by (simp add: backStep_def)
  from assms(2) have i: "i < length pbs" and al: "along (pbs ! i) dir" by (auto simp: legal_slide_def)
  fix j assume "j < length (backStep (snd (slide_move (pbs ! i) dir d)) (pbs[i := shift (pbs ! i) dir d]))"
  then have j: "j < length pbs" by (simp add: backStep_def)
  show "backStep (snd (slide_move (pbs ! i) dir d)) (pbs[i := shift (pbs ! i) dir d]) ! j = pbs ! j"
  proof (cases "j = i")
    case True
    then show ?thesis using i unshift[OF al, of d]
      by (cases dir) (simp_all add: backStep_def slide_move_def)
  next
    case False
    then have "blk_id (pbs ! j) \<noteq> blk_id (pbs ! i)" using distinct_ids_nth[OF assms(1) i j] by auto
    then show ?thesis using False j by (simp add: backStep_def slide_move_def)
  qed
qed





lemma backtrack_trail:
  assumes v: "valid_config init"
    and t: "trail init prev lvl mv bs snaps moves"
    and r: "prev (the_board bs, lvl) = Some mv"
    and n: "length moves < n"
  shows "backtrack n prev (the_board bs) bs lvl (bs # sol) ms = Some (Inr (snaps @ sol, moves @ ms))"
  using t r n
proof (induction arbitrary: n sol ms rule: trail.induct)
  case start
  from start.prems(2) obtain k where "n = Suc k" by (cases n) auto
  then show ?case using start.prems(1) by (simp add: dummyMove_def)
next
  case (extend lvl pmv pbs snaps moves i dir d)
  let ?c = "pbs[i := shift (pbs ! i) dir d]"
  let ?m = "snd (slide_move (pbs ! i) dir d)"
  from extend.prems(2) obtain k where k: "n = Suc k" "length moves < k" by (cases n) auto
  have ap: "arrangement init pbs" by (rule trail_arrangement[OF v extend.hyps(1)])
  from extend.hyps(3) have i: "i < length pbs" by (simp add: legal_slide_def)
  have "0 \<le> blk_id (pbs ! i)" using arrangement_id_bounds[OF v ap, of "pbs ! i"] i by simp
  then have nd: "mv_blockId ?m \<noteq> - 1" by (simp add: slide_move_def)
  have bs: "backStep ?m ?c = pbs"
    by (rule backStep_slide[OF arrangement_distinct_ids[OF v ap] extend.hyps(3)])
  have mb: "make_board pbs = Inr (the_board pbs)"
    using ap by (simp add: arrangement_def placed_make_board)
  have "backtrack n prev (the_board ?c) ?c (lvl + 1) (?c # sol) ms =
        backtrack k prev (the_board pbs) pbs lvl (pbs # ?c # sol) (?m # ms)"
    using k(1) extend.prems(1) nd bs mb by (simp add: Let_def)
  also have "\<dots> = Some (Inr (snaps @ ?c # sol, moves @ ?m # ms))"
    by (rule extend.IH[OF extend.hyps(2) k(2)])
  finally show ?case by simp
qed

lemma children_iff:
  "e \<in> set (children vis level brd bs) \<longleftrightarrow>
     (\<exists>i bm. i < length bs \<and> bm \<in> set (findBlockMoves brd (bs ! i)) \<and>
        the_board (bs[i := fst bm]) \<notin> vis \<and> e = (level + 1, snd bm, bs[i := fst bm]))"
proof
  assume "e \<in> set (children vis level brd bs)"
  then obtain i bm where "i < length bs" "bm \<in> set (findBlockMoves brd (bs ! i))"
    "e \<in> set (child_entries vis level bs i bm)"
    unfolding children_def by auto
  then show "\<exists>i bm. i < length bs \<and> bm \<in> set (findBlockMoves brd (bs ! i)) \<and>
        the_board (bs[i := fst bm]) \<notin> vis \<and> e = (level + 1, snd bm, bs[i := fst bm])"
    by (intro exI[of _ i] exI[of _ bm]) (auto simp: child_entries_def split: if_splits)
next
  assume "\<exists>i bm. i < length bs \<and> bm \<in> set (findBlockMoves brd (bs ! i)) \<and>
        the_board (bs[i := fst bm]) \<notin> vis \<and> e = (level + 1, snd bm, bs[i := fst bm])"
  then obtain i bm where i: "i < length bs" "bm \<in> set (findBlockMoves brd (bs ! i))"
    "the_board (bs[i := fst bm]) \<notin> vis" "e = (level + 1, snd bm, bs[i := fst bm])" by blast
  then have "e \<in> set (child_entries vis level bs i bm)" by (simp add: child_entries_def)
  with i(1,2) show "e \<in> set (children vis level brd bs)"
    unfolding children_def by auto
qed

lemma arrangement_prisoner:
  assumes "valid_config init" "arrangement init bs"
  shows "\<exists>it. find (\<lambda>b. blk_kind b = Prisoner) bs = Some it \<and> it \<in> set bs"
proof -
  from assms(2) have "map (blk_kind) bs = map blk_kind init"
  proof -
    from assms(2) have "map (fst \<circ> snd \<circ> snd) (map shape bs) = map (fst \<circ> snd \<circ> snd) (map shape init)"
      by (simp add: arrangement_def)
    then show ?thesis by (simp add: shape_def comp_def)
  qed
  then have "set (map blk_kind bs) = set (map blk_kind init)" by simp
  moreover from assms(1) have "Prisoner \<in> set (map blk_kind init)" by (force simp: valid_config_def)
  ultimately have "Prisoner \<in> set (map blk_kind bs)" by simp
  then have "\<exists>b\<in>set bs. blk_kind b = Prisoner" by force
  then have "find (\<lambda>b. blk_kind b = Prisoner) bs \<noteq> None" by (simp add: find_None_set)
  then show ?thesis by (auto dest: find_Some_set)
qed

lemma allClear_total:
  assumes "placed bs" "it \<in> set bs"
  shows "allClear (the_board bs) it =
     Inr (\<forall>x\<in>set [blk_x it + blk_length it..g_boardSize - 1].
            tile_at (brd_data (the_board bs)) (blk_y it) x = Empty)"
proof -
  note b = placed_block_bounds[OF assms]
  from assms have l: "1 \<le> blk_length it" by (auto simp: placed_def)
  have "\<forall>x\<in>set [blk_x it + blk_length it..g_boardSize - 1]. in_grid (blk_y it) x"
    using b l by (auto simp: in_grid_def g_boardSize_def)
  from clearFrom_ok[OF the_board_props(1)[OF assms(1)] this] show ?thesis
    by (simp add: allClear_def)
qed

lemma step_cases:
  assumes v: "valid_config init" and a: "arrangement init bs"
    and q: "ss_queue st = (level, mv, bs) # rest"
  shows "step st =
     (if the_board bs \<in> ss_visited st then Continue (st\<lparr>ss_queue := rest\<rparr>)
      else if winning bs then Won (visit st level mv bs rest) (the_board bs) bs level
      else Continue (visit st level mv bs
             (rest @ children (insert (the_board bs) (ss_visited st)) level (the_board bs) bs)))"
proof -
  from a have p: "placed bs" by (simp add: arrangement_def)
  have mb: "make_board bs = Inr (the_board bs)" by (rule placed_make_board[OF p])
  from arrangement_prisoner[OF v a] obtain it where
    it: "find (\<lambda>b. blk_kind b = Prisoner) bs = Some it" "it \<in> set bs" by blast
  from allClear_total[OF p it(2)] obtain w where w: "allClear (the_board bs) it = Inr w" by blast
  have win: "winning bs = w" using mb it(1) w by (simp add: winning_def)
  show ?thesis
  proof (cases "the_board bs \<in> ss_visited st")
    case True
    then show ?thesis using q mb by (simp add: step_def)
  next
    case False
    show ?thesis
    proof (cases w)
      case True
      then show ?thesis using False q mb it(1) w win
        by (simp add: step_def visit_def)
    next
      case f: False
      then show ?thesis using False q mb it(1) w win expand_eq[OF p mb]
        by (simp add: step_def visit_def Let_def)
    qed
  qed
qed

lemma ml_inv_head:
  assumes "valid_config init" "ml_inv init st" "ss_queue st = (level, mv, bs) # rest"
  shows "\<exists>snaps moves. trail init (ss_previousMoves st) level mv bs snaps moves"
    "arrangement init bs" "1 \<le> level"
proof -
  from assms(2,3) obtain snaps moves where
    t: "trail init (ss_previousMoves st) level mv bs snaps moves"
    by (fastforce simp: ml_inv_def)
  then show "\<exists>snaps moves. trail init (ss_previousMoves st) level mv bs snaps moves" by blast
  from trail_arrangement[OF assms(1) t] show "arrangement init bs" .
  from trail_shape[OF t] show "1 \<le> level" by simp
qed

lemma ml_inv_fresh_key:
  assumes "valid_config init" "ml_inv init st" "ss_queue st = (level, mv, bs) # rest"
    "the_board bs \<notin> ss_visited st"
  shows "ss_previousMoves st \<subseteq>\<^sub>m (ss_previousMoves st)((the_board bs, level) \<mapsto> mv)"
proof -
  have "ss_previousMoves st (the_board bs, level) = None"
  proof (rule ccontr)
    assume "ss_previousMoves st (the_board bs, level) \<noteq> None"
    then obtain m where "ss_previousMoves st (the_board bs, level) = Some m" by blast
    with assms(2) ml_inv_head(3)[OF assms(1-3)] have "the_board bs \<in> ss_visited st"
      by (auto simp: ml_inv_def)
    with assms(4) show False by simp
  qed
  then show ?thesis by (simp add: map_le_def dom_def)
qed

lemma ml_inv_skip:
  assumes "ml_inv init st" "ss_queue st = e # rest"
  shows "ml_inv init (st\<lparr>ss_queue := rest\<rparr>)"
  using assms unfolding ml_inv_def by simp

lemma ml_inv_visit:
  assumes v: "valid_config init" and inv: "ml_inv init st"
    and q: "ss_queue st = (level, mv, bs) # rest" and nv: "the_board bs \<notin> ss_visited st"
    and kids: "\<forall>e\<in>set kids. \<exists>i dir d. legal_slide bs i dir d \<and>
                 e = (level + 1, snd (slide_move (bs ! i) dir d), bs[i := shift (bs ! i) dir d])"
  shows "ml_inv init (visit st level mv bs (rest @ kids))"
proof -
  let ?prev = "ss_previousMoves st"
  let ?prev' = "?prev((the_board bs, level) \<mapsto> mv)"
  note le = ml_inv_fresh_key[OF v inv q nv]
  from ml_inv_head[OF v inv q] obtain snaps moves where
    t: "trail init ?prev level mv bs snaps moves" and l1: "1 \<le> level" by blast
  have t': "trail init ?prev' level mv bs snaps moves" by (rule trail_mono[OF t le])
  have 1: "\<exists>snaps moves. trail init ?prev' (fst e) (fst (snd e)) (snd (snd e)) snaps moves"
    if "e \<in> set (rest @ kids)" for e
  proof (cases "e \<in> set rest")
    case True
    with inv q obtain sn ms where "trail init ?prev (fst e) (fst (snd e)) (snd (snd e)) sn ms"
      by (fastforce simp: ml_inv_def)
    from trail_mono[OF this le] show ?thesis by blast
  next
    case False
    with that kids obtain i dir d where k: "legal_slide bs i dir d"
      "e = (level + 1, snd (slide_move (bs ! i) dir d), bs[i := shift (bs ! i) dir d])" by auto
    have "trail init ?prev' (fst e) (fst (snd e)) (snd (snd e))
            (snaps @ [bs[i := shift (bs ! i) dir d]]) (moves @ [snd (slide_move (bs ! i) dir d)])"
      unfolding k(2) fst_conv snd_conv by (rule trail.extend[OF t' _ k(1)]) simp
    then show ?thesis by blast
  qed
  have 2: "b \<in> insert (the_board bs) (ss_visited st) \<and>
          (\<exists>bs' snaps moves. the_board bs' = b \<and> trail init ?prev' lvl m bs' snaps moves)"
    if "?prev' (b, lvl) = Some m" "1 \<le> lvl" for b lvl m
  proof (cases "(b, lvl) = (the_board bs, level)")
    case True
    then show ?thesis using that t' by auto
  next
    case False
    then have "?prev (b, lvl) = Some m" using that(1) by (simp split: if_splits)
    with inv that(2) obtain bs' sn ms where "b \<in> ss_visited st" "the_board bs' = b"
      "trail init ?prev lvl m bs' sn ms" unfolding ml_inv_def by blast
    then show ?thesis using trail_mono[OF _ le] by blast
  qed
  have 3: "\<exists>lvl m. 1 \<le> lvl \<and> ?prev' (b, lvl) = Some m" if "b \<in> insert (the_board bs) (ss_visited st)" for b
  proof (cases "b = the_board bs")
    case True
    then show ?thesis using l1 by (intro exI[of _ level] exI[of _ mv]) simp
  next
    case False
    with that inv obtain lvl m where "1 \<le> lvl" "?prev (b, lvl) = Some m"
      unfolding ml_inv_def by auto
    then show ?thesis using False by (intro exI[of _ lvl] exI[of _ m]) simp
  qed
  show ?thesis unfolding ml_inv_def visit_def search_state.select_convs
  proof (intro conjI)
    show "\<forall>e\<in>set (rest @ kids). \<exists>snaps moves.
          trail init ?prev' (fst e) (fst (snd e)) (snd (snd e)) snaps moves"
      using 1 by blast
    show "\<forall>b lvl mv. ?prev' (b, lvl) = Some mv \<and> 1 \<le> lvl \<longrightarrow>
          b \<in> insert (the_board bs) (ss_visited st) \<and>
          (\<exists>bs snaps moves. the_board bs = b \<and> trail init ?prev' lvl mv bs snaps moves)"
      using 2 by blast
    show "\<forall>b\<in>insert (the_board bs) (ss_visited st). \<exists>lvl mv. 1 \<le> lvl \<and> ?prev' (b, lvl) = Some mv"
      using 3 by blast
  qed
qed

lemma children_legal:
  assumes "placed bs"
  shows "\<forall>e\<in>set (children vis level (the_board bs) bs). \<exists>i dir d. legal_slide bs i dir d \<and>
                 e = (level + 1, snd (slide_move (bs ! i) dir d), bs[i := shift (bs ! i) dir d])"
proof
  fix e assume "e \<in> set (children vis level (the_board bs) bs)"
  then obtain i bm where i: "i < length bs" "bm \<in> set (findBlockMoves (the_board bs) (bs ! i))"
    "e = (level + 1, snd bm, bs[i := fst bm])" unfolding children_iff by blast
  from i(2) obtain dir d where "legal_slide bs i dir d" "bm = slide_move (bs ! i) dir d"
    unfolding generated_legal[OF placed_make_board[OF assms] i(1)] by blast
  then show "\<exists>i dir d. legal_slide bs i dir d \<and>
                 e = (level + 1, snd (slide_move (bs ! i) dir d), bs[i := shift (bs ! i) dir d])"
    using i(3) by (intro exI[of _ i] exI[of _ dir] exI[of _ d]) (simp add: slide_move_def)
qed

lemma ml_inv_step:
  assumes v: "valid_config init" and inv: "ml_inv init st" and s: "step st = Continue st'"
  shows "ml_inv init st'"
proof (cases "ss_queue st")
  case Nil
  then show ?thesis using s by (simp add: step_def)
next
  case (Cons e rest)
  obtain level mv bs where e: "e = (level, mv, bs)" by (cases e) auto
  with Cons have q: "ss_queue st = (level, mv, bs) # rest" by simp
  note a = ml_inv_head(2)[OF v inv q]
  from a have p: "placed bs" by (simp add: arrangement_def)
  note sc = step_cases[OF v a q]
  show ?thesis
  proof (cases "the_board bs \<in> ss_visited st")
    case True
    then have "st' = st\<lparr>ss_queue := rest\<rparr>" using sc s by simp
    then show ?thesis using ml_inv_skip[OF inv q] by simp
  next
    case False
    then have "\<not> winning bs" using sc s by (auto split: if_splits)
    then have "st' = visit st level mv bs
             (rest @ children (insert (the_board bs) (ss_visited st)) level (the_board bs) bs)"
      using sc s False by simp
    then show ?thesis using ml_inv_visit[OF v inv q False children_legal[OF p]] by simp
  qed
qed

lemma ml_inv_initial:
  "ml_inv init (initial_state init (the_board init))"
  unfolding ml_inv_def initial_state_def
  by (auto intro: trail.start split: if_splits)

lemma backtrack_fuel:
  assumes "backtrack n prev brd bs lvl sol ms = Some r" "n \<le> m"
  shows "backtrack m prev brd bs lvl sol ms = Some r"
  using assms
proof (induction n prev brd bs lvl sol ms arbitrary: m rule: backtrack.induct)
  case (1 prev currentBoard currentBlocks currentLevel solution moves)
  then show ?case by simp
next
  case (2 n prev currentBoard currentBlocks currentLevel solution moves)
  from "2.prems"(2) obtain k where k: "m = Suc k" "n \<le> k" by (cases m) auto
  show ?case
  proof (cases "prev (currentBoard, currentLevel)")
    case None
    then show ?thesis using "2.prems"(1) k by simp
  next
    case (Some itMove)
    show ?thesis
    proof (cases "mv_blockId itMove = - 1")
      case True
      then show ?thesis using "2.prems"(1) k Some by simp
    next
      case False
      show ?thesis
      proof (cases "make_board (backStep itMove currentBlocks)")
        case (Inl e)
        then show ?thesis using "2.prems"(1) k Some False by (simp add: Let_def)
      next
        case (Inr b)
        from "2.prems"(1) Some False Inr
        have "backtrack n prev b (backStep itMove currentBlocks) (currentLevel - 1)
                (backStep itMove currentBlocks # solution) (itMove # moves) = Some r"
          by (simp add: Let_def)
        from "2.IH"[OF Some False refl Inr this k(2)] show ?thesis
          using k Some False Inr by (simp add: Let_def)
      qed
    qed
  qed
qed

lemma backtrack_result:
  assumes v: "valid_config init"
    and t: "trail init prev lvl mv bs snaps moves"
    and r: "prev (the_board bs, lvl) = Some mv"
    and b: "backtrack n prev (the_board bs) bs lvl [bs] [] = Some res"
  shows "res = Inr (snaps, moves)"
proof -
  let ?m = "max n (Suc (length moves))"
  have "backtrack ?m prev (the_board bs) bs lvl [bs] [] = Some res"
    by (rule backtrack_fuel[OF b]) simp
  moreover have "backtrack ?m prev (the_board bs) bs lvl (bs # []) [] = Some (Inr (snaps @ [], moves @ []))"
    by (rule backtrack_trail[OF v t r]) simp
  ultimately show ?thesis by simp
qed


lemma solveLoop_trail:
  assumes v: "valid_config init" and inv: "ml_inv init st"
    and s: "solveLoop n st = Some (Solved snaps moves)"
  shows "\<exists>prev lvl mv bs. trail init prev lvl mv bs snaps moves \<and> winning bs"
  using inv s
proof (induction n arbitrary: st)
  case 0
  then show ?case by simp
next
  case (Suc n)
  show ?case
  proof (cases "ss_queue st")
    case Nil
    then show ?thesis using Suc.prems(2) by (simp add: step_def)
  next
    case (Cons e rest)
    obtain level mv bs where e: "e = (level, mv, bs)" by (cases e) auto
    with Cons have q: "ss_queue st = (level, mv, bs) # rest" by simp
    note a = ml_inv_head(2)[OF v Suc.prems(1) q]
    note sc = step_cases[OF v a q]
    show ?thesis
    proof (cases "the_board bs \<notin> ss_visited st \<and> winning bs")
      case True
      let ?prev' = "(ss_previousMoves st)((the_board bs, level) \<mapsto> mv)"
      from ml_inv_head(1)[OF v Suc.prems(1) q] obtain sn ms where
        "trail init (ss_previousMoves st) level mv bs sn ms" by blast
      from trail_mono[OF this ml_inv_fresh_key[OF v Suc.prems(1) q]] True
      have t: "trail init ?prev' level mv bs sn ms" by simp
      from Suc.prems(2) sc True obtain res where
        b: "backtrack n ?prev' (the_board bs) bs level [bs] [] = Some res"
        and r: "res = Inr (snaps, moves)"
        by (auto simp: visit_def split: option.splits sum.splits)
      from backtrack_result[OF v t _ b] r have "sn = snaps" "ms = moves" by auto
      with t True show ?thesis by blast
    next
      case False
      then obtain st' where st': "step st = Continue st'" using sc by (auto split: if_splits)
      from Suc.prems(2) st' have "solveLoop n st' = Some (Solved snaps moves)" by simp
      from Suc.IH[OF ml_inv_step[OF v Suc.prems(1) st'] this] show ?thesis .
    qed
  qed
qed

lemma solveBoard_trail:
  assumes v: "valid_config init" and s: "solveBoard n init = Some (Solved snaps moves)"
  shows "\<exists>prev lvl mv bs. trail init prev lvl mv bs snaps moves \<and> winning bs"
proof -
  from v have "make_board init = Inr (the_board init)"
    by (simp add: valid_config_def placed_make_board)
  with s have "solveLoop n (initial_state init (the_board init)) = Some (Solved snaps moves)"
    by (simp add: solveBoard_def)
  from solveLoop_trail[OF v ml_inv_initial this] show ?thesis .
qed

section \<open>The C++ search loop\<close>

lemma Trail_arrangement:
  assumes "valid_config init" "Trail init prev bs snaps moves"
  shows "arrangement init bs"
  using assms(2) by (induction rule: Trail.induct) (auto simp: arrangement_init[OF assms(1)] arrangement_slide)


lemma Trail_mono:
  assumes "Trail init prev bs snaps moves" "prev \<subseteq>\<^sub>m prev'"
  shows "Trail init prev' bs snaps moves"
  using assms(1)
proof (induction rule: Trail.induct)
  case Start
  then have "prev' (the_Board init) = Some sentinel" using assms(2) by (auto simp: map_le_def dom_def)
  then show ?case by (rule Trail.Start)
next
  case (Extend pbs snaps moves i dir)
  from Extend.hyps(3) assms(2)
  have "prev' (the_Board (pbs[i := shift (pbs ! i) dir 1])) = Some (step_move (pbs ! i) dir)"
    by (auto simp: map_le_def dom_def)
  from Trail.Extend[OF Extend.IH Extend.hyps(2) this] show ?case .
qed

lemma map_insert_le: "m \<subseteq>\<^sub>m map_insert m k v"
  by (auto simp: map_insert_def map_le_def split: option.splits)

lemma map_insert_dom: "dom (map_insert m k v) = insert k (dom m)"
  by (auto simp: map_insert_def split: option.splits)

lemma map_insert_fresh: "k \<notin> dom m \<Longrightarrow> map_insert m k v k = Some v"
  by (auto simp: map_insert_def split: option.splits)

lemma cpp_inv_pop:
  assumes "cpp_inv init vis (bs # rest, prev)" "the_Board bs \<in> vis'" "vis \<subseteq> vis'"
  shows "cpp_inv init vis' (rest, prev)"
  unfolding cpp_inv_def fst_conv snd_conv
proof (rule conjI)
  show "\<forall>bs\<in>set rest. arrangement init bs \<and> the_Board bs \<in> dom prev"
    using assms(1) by (simp add: cpp_inv_def)
  show "\<forall>b\<in>dom prev. b \<notin> vis' \<longrightarrow>
       (\<exists>q1 bs q2. rest = q1 @ bs # q2 \<and> the_Board bs = b \<and> (\<forall>x\<in>set q1. the_Board x \<noteq> b) \<and>
            (\<exists>snaps moves. Trail init prev bs snaps moves))"
  proof (intro ballI impI)
    fix b assume b: "b \<in> dom prev" "b \<notin> vis'"
    then have "b \<notin> vis" using assms(3) by auto
    with assms(1) b(1) obtain q1 x q2 where d: "bs # rest = q1 @ x # q2" "the_Board x = b"
      "\<forall>y\<in>set q1. the_Board y \<noteq> b" "\<exists>snaps moves. Trail init prev x snaps moves"
      unfolding cpp_inv_def fst_conv snd_conv by blast
    have "q1 \<noteq> []"
    proof
      assume "q1 = []"
      with d(1,2) have "the_Board bs = b" by simp
      with assms(2) b(2) show False by simp
    qed
    then obtain q1' where "q1 = bs # q1'" using d(1) by (cases q1) auto
    with d show "\<exists>q1 bs q2. rest = q1 @ bs # q2 \<and> the_Board bs = b \<and> (\<forall>x\<in>set q1. the_Board x \<noteq> b) \<and>
            (\<exists>snaps moves. Trail init prev bs snaps moves)"
      by (intro exI[of _ q1'] exI[of _ x] exI[of _ q2]) auto
  qed
qed

lemma cpp_inv_head:
  assumes "cpp_inv init vis (bs # rest, prev)" "the_Board bs \<notin> vis"
  shows "\<exists>snaps moves. Trail init prev bs snaps moves"
proof -
  from assms(1) have "the_Board bs \<in> dom prev" by (simp add: cpp_inv_def)
  with assms obtain q1 x q2 where d: "bs # rest = q1 @ x # q2" "the_Board x = the_Board bs"
    "\<forall>y\<in>set q1. the_Board y \<noteq> the_Board bs" "\<exists>snaps moves. Trail init prev x snaps moves"
    unfolding cpp_inv_def fst_conv snd_conv by blast
  have "q1 = []"
  proof (rule ccontr)
    assume "q1 \<noteq> []"
    then obtain q1' where "q1 = bs # q1'" using d(1) by (cases q1) auto
    with d(3) show False by simp
  qed
  with d(1,4) show ?thesis by simp
qed

lemma cpp_inv_push:
  assumes v: "valid_config init" and inv: "cpp_inv init vis s"
    and t: "Trail init (snd s) bs snaps moves"
    and l: "legal_slide bs i dir 1"
  shows "cpp_inv init vis (push_kid s (bs[i := shift (bs ! i) dir 1], step_move (bs ! i) dir))"
proof -
  let ?c = "bs[i := shift (bs ! i) dir 1]"
  let ?m = "step_move (bs ! i) dir"
  let ?prev = "snd s"
  let ?prev' = "map_insert ?prev (the_Board ?c) ?m"
  have le: "?prev \<subseteq>\<^sub>m ?prev'" by (rule map_insert_le)
  have ac: "arrangement init ?c" by (rule arrangement_slide[OF Trail_arrangement[OF v t] l])
  have 1: "arrangement init x \<and> the_Board x \<in> dom ?prev'" if "x \<in> set (fst s @ [?c])" for x
    using that inv ac by (auto simp: cpp_inv_def map_insert_dom)
  have 2: "\<exists>q1 x q2. fst s @ [?c] = q1 @ x # q2 \<and> the_Board x = b \<and> (\<forall>y\<in>set q1. the_Board y \<noteq> b) \<and>
            (\<exists>snaps moves. Trail init ?prev' x snaps moves)"
    if b: "b \<in> dom ?prev'" "b \<notin> vis" for b
  proof (cases "b \<in> dom ?prev")
    case True
    with inv b(2) obtain q1 x q2 where d: "fst s = q1 @ x # q2" "the_Board x = b"
      "\<forall>y\<in>set q1. the_Board y \<noteq> b" "\<exists>snaps moves. Trail init ?prev x snaps moves"
      unfolding cpp_inv_def by blast
    from d(4) obtain sn ms where "Trail init ?prev x sn ms" by blast
    from Trail_mono[OF this le] d(1-3) show ?thesis
      by (intro exI[of _ q1] exI[of _ x] exI[of _ "q2 @ [?c]"]) auto
  next
    case False
    with b(1) have bc: "b = the_Board ?c" by (simp add: map_insert_dom)
    have "\<forall>y\<in>set (fst s). the_Board y \<noteq> b" using inv False by (auto simp: cpp_inv_def)
    moreover have "?prev' (the_Board ?c) = Some ?m" using False bc by (simp add: map_insert_fresh)
    from Trail.Extend[OF Trail_mono[OF t le] l this]
    have "\<exists>snaps moves. Trail init ?prev' ?c snaps moves" by blast
    ultimately show ?thesis using bc
      by (intro exI[of _ "fst s"] exI[of _ ?c] exI[of _ "[]"]) auto
  qed
  show ?thesis unfolding cpp_inv_def push_kid_def fst_conv snd_conv
  proof (rule conjI)
    show "\<forall>x\<in>set (fst s @ [?c]). arrangement init x \<and> the_Board x \<in> dom ?prev'"
      using 1 by blast
    show "\<forall>b\<in>dom ?prev'. b \<notin> vis \<longrightarrow>
       (\<exists>q1 x q2. fst s @ [?c] = q1 @ x # q2 \<and> the_Board x = b \<and> (\<forall>y\<in>set q1. the_Board y \<noteq> b) \<and>
            (\<exists>snaps moves. Trail init ?prev' x snaps moves))"
      using 2 by blast
  qed
qed

lemma Children_legal:
  assumes "placed bs"
  shows "\<forall>k\<in>set (Children (the_Board bs) bs). \<exists>i dir. legal_slide bs i dir 1 \<and>
            k = (bs[i := shift (bs ! i) dir 1], step_move (bs ! i) dir)"
proof
  fix k assume "k \<in> set (Children (the_Board bs) bs)"
  then obtain i where i1: "i < length bs" "k \<in> set (Kids (the_Board bs) bs i)"
    unfolding Children_def by auto
  from i1(2) obtain dir where "dir \<in> set (filter (can_step (the_Board bs) (bs ! i)) [Left, Right, Up, Down])"
    "k = (bs[i := shift (bs ! i) dir 1], \<lparr>cm_blockId = blk_id (bs ! i), cm_move = dir\<rparr>)"
    unfolding Kids_def set_map by blast
  then have i: "i < length bs" "can_step (the_Board bs) (bs ! i) dir"
    "k = (bs[i := shift (bs ! i) dir 1], \<lparr>cm_blockId = blk_id (bs ! i), cm_move = dir\<rparr>)"
    using i1(1) unfolding set_filter by auto
  from can_step_legal[OF assms placed_renderBlocks[OF assms] i(1,2)] i(3)
  show "\<exists>i dir. legal_slide bs i dir 1 \<and> k = (bs[i := shift (bs ! i) dir 1], step_move (bs ! i) dir)"
    by (auto simp: step_move_def)
qed

lemma cpp_inv_push_all:
  assumes v: "valid_config init" and inv: "cpp_inv init vis s"
    and t: "Trail init (snd s) bs snaps moves"
    and ks: "\<forall>k\<in>set ks. \<exists>i dir. legal_slide bs i dir 1 \<and>
            k = (bs[i := shift (bs ! i) dir 1], step_move (bs ! i) dir)"
  shows "cpp_inv init vis (foldl push_kid s ks) \<and> snd s \<subseteq>\<^sub>m snd (foldl push_kid s ks)"
  using inv t ks
proof (induction ks arbitrary: s)
  case Nil
  then show ?case by simp
next
  case (Cons k ks)
  from Cons.prems(3) obtain i dir where k: "legal_slide bs i dir 1"
    "k = (bs[i := shift (bs ! i) dir 1], step_move (bs ! i) dir)" by auto
  have inv': "cpp_inv init vis (push_kid s k)"
    unfolding k(2) by (rule cpp_inv_push[OF v Cons.prems(1,2) k(1)])
  have le: "snd s \<subseteq>\<^sub>m snd (push_kid s k)" by (simp add: push_kid_def map_insert_le)
  from Cons.IH[OF inv' Trail_mono[OF Cons.prems(2) le]] Cons.prems(3)
  have "cpp_inv init vis (foldl push_kid (push_kid s k) ks) \<and>
        snd (push_kid s k) \<subseteq>\<^sub>m snd (foldl push_kid (push_kid s k) ks)" by simp
  then show ?case using le by (auto intro: map_le_trans)
qed

lemma canEscape_total:
  assumes "placed bs" "it \<in> set bs"
  shows "canEscape (the_Board bs) it =
     Inr (\<forall>x\<in>set [blk_x it + blk_length it..SIZE - 1]. Tile_at (the_Board bs) (blk_y it) x = Empty)"
proof -
  note b = placed_block_bounds[OF assms]
  from assms have l: "1 \<le> blk_length it" by (auto simp: placed_def)
  have "\<forall>x\<in>set [blk_x it + blk_length it..SIZE - 1]. in_grid (blk_y it) x"
    using b l by (auto simp: in_grid_def SIZE_def)
  from scanRight_ok[OF the_Board_props(1)[OF assms(1)] this] show ?thesis
    by (simp add: canEscape_def)
qed

lemma Step_cases:
  assumes v: "valid_config init" and a: "arrangement init bs"
    and q: "cs_queue st = bs # rest"
  shows "Step st =
     (if the_Board bs \<in> cs_visited st then Next (st\<lparr>cs_queue := rest\<rparr>)
      else if Winning bs then Found (Visit st bs (rest, cs_previousMoves st)) (the_Board bs) bs
      else Next (Visit st bs (foldl push_kid (rest, cs_previousMoves st) (Children (the_Board bs) bs))))"
proof -
  from a have p: "placed bs" by (simp add: arrangement_def)
  have mb: "renderBlocks bs = Inr (the_Board bs)" by (rule placed_renderBlocks[OF p])
  from arrangement_prisoner[OF v a] obtain it where
    it: "find (\<lambda>b. blk_kind b = Prisoner) bs = Some it" "it \<in> set bs" by blast
  from canEscape_total[OF p it(2)] obtain w where w: "canEscape (the_Board bs) it = Inr w" by blast
  have win: "Winning bs = w" using mb it(1) w by (simp add: Winning_def)
  have rec: "st\<lparr>cs_queue := rest, cs_visited := insert (the_Board bs) (cs_visited st)\<rparr> =
             Visit st bs (rest, cs_previousMoves st)"
    by (simp add: Visit_def)
  show ?thesis
  proof (cases "the_Board bs \<in> cs_visited st")
    case True
    then show ?thesis using q mb by (simp add: Step_def)
  next
    case False
    show ?thesis
    proof (cases w)
      case True
      then show ?thesis using False q mb it(1) w win
        by (simp add: Step_def Visit_def)
    next
      case f: False
      obtain q' prev' where k: "foldl push_kid (rest, cs_previousMoves st) (Children (the_Board bs) bs) = (q', prev')"
        by (metis surj_pair)
      then show ?thesis using f False q mb it(1) w win expandAll_eq[OF p mb, of "(rest, cs_previousMoves st)"]
        by (simp add: Step_def Visit_def Let_def)
    qed
  qed
qed

lemma update_first_nth:
  assumes "i < length xs" "P (xs ! i)" "\<forall>j<i. \<not> P (xs ! j)"
  shows "update_first P f xs = Some (xs[i := f (xs ! i)])"
  using assms
proof (induction xs arbitrary: i)
  case Nil
  then show ?case by simp
next
  case (Cons x xs)
  show ?case
  proof (cases i)
    case 0
    then show ?thesis using Cons.prems by simp
  next
    case (Suc k)
    then have "\<not> P x" using Cons.prems(3) by auto
    moreover have "update_first P f xs = Some (xs[k := f (xs ! k)])"
      by (rule Cons.IH) (use Cons.prems Suc in auto)
    ultimately show ?thesis using Suc by simp
  qed
qed

lemma undo_shift: "along b dir \<Longrightarrow> undo dir (shift b dir 1) = b"
  by (cases dir) (simp_all add: undo_def shift_def)

lemma undo_step:
  assumes "distinct (map blk_id pbs)" "legal_slide pbs i dir 1"
  shows "update_first (\<lambda>b. blk_id b = cm_blockId (step_move (pbs ! i) dir)) (undo (cm_move (step_move (pbs ! i) dir)))
           (pbs[i := shift (pbs ! i) dir 1]) = Some pbs"
proof -
  let ?c = "pbs[i := shift (pbs ! i) dir 1]"
  from assms(2) have i: "i < length pbs" and al: "along (pbs ! i) dir" by (auto simp: legal_slide_def)
  have "update_first (\<lambda>b. blk_id b = blk_id (pbs ! i)) (undo dir) ?c = Some (?c[i := undo dir (?c ! i)])"
  proof (rule update_first_nth)
    show "i < length ?c" using i by simp
    show "blk_id (?c ! i) = blk_id (pbs ! i)" using i by simp
    show "\<forall>j<i. blk_id (?c ! j) \<noteq> blk_id (pbs ! i)"
    proof (intro allI impI)
      fix j assume "j < i"
      then show "blk_id (?c ! j) \<noteq> blk_id (pbs ! i)"
        using distinct_ids_nth[OF assms(1) i, of j] i by auto
    qed
  qed
  moreover have "?c[i := undo dir (?c ! i)] = pbs" using i undo_shift[OF al] by (simp add: list_update_id)
  ultimately show ?thesis by (simp add: step_move_def)
qed

lemma Backtrack_Trail:
  assumes v: "valid_config init"
    and t: "Trail init prev bs snaps moves"
    and n: "length moves < n"
  shows "Backtrack n prev (the_Board bs) bs (bs # sol) ms = Some (Inr (snaps @ sol, moves @ ms))"
  using t n
proof (induction arbitrary: n sol ms rule: Trail.induct)
  case Start
  from Start.prems obtain k where "n = Suc k" by (cases n) auto
  then show ?case using Start.hyps by (simp add: sentinel_def)
next
  case (Extend pbs snaps moves i dir)
  let ?c = "pbs[i := shift (pbs ! i) dir 1]"
  let ?m = "step_move (pbs ! i) dir"
  from Extend.prems obtain k where k: "n = Suc k" "length moves < k" by (cases n) auto
  have ap: "arrangement init pbs" by (rule Trail_arrangement[OF v Extend.hyps(1)])
  from Extend.hyps(2) have i: "i < length pbs" by (simp add: legal_slide_def)
  have "0 \<le> blk_id (pbs ! i)" using arrangement_id_bounds[OF v ap, of "pbs ! i"] i by simp
  then have nd: "cm_blockId ?m \<noteq> - 1" by (simp add: step_move_def)
  note un = undo_step[OF arrangement_distinct_ids[OF v ap] Extend.hyps(2)]
  have mb: "renderBlocks pbs = Inr (the_Board pbs)"
    using ap by (simp add: arrangement_def placed_renderBlocks)
  have "Backtrack n prev (the_Board ?c) ?c (?c # sol) ms =
        Backtrack k prev (the_Board pbs) pbs (pbs # ?c # sol) (?m # ms)"
    using k(1) Extend.hyps(3) nd un mb by simp
  also have "\<dots> = Some (Inr (snaps @ ?c # sol, moves @ ?m # ms))"
    by (rule Extend.IH[OF k(2)])
  finally show ?case by simp
qed



lemma cpp_ok_head:
  assumes "cpp_ok init st" "cs_queue st = bs # rest"
  shows "arrangement init bs"
  using assms by (simp add: cpp_ok_def cpp_inv_def)

lemma cpp_ok_Step:
  assumes v: "valid_config init" and inv: "cpp_ok init st" and s: "Step st = Next st'"
  shows "cpp_ok init st'"
proof (cases "cs_queue st")
  case Nil
  then show ?thesis using s by (simp add: Step_def)
next
  case (Cons bs rest)
  note a = cpp_ok_head[OF inv Cons]
  from a have p: "placed bs" by (simp add: arrangement_def)
  note sc = Step_cases[OF v a Cons]
  from inv Cons have i0: "cpp_inv init (cs_visited st) (bs # rest, cs_previousMoves st)"
    by (simp add: cpp_ok_def)
  show ?thesis
  proof (cases "the_Board bs \<in> cs_visited st")
    case True
    then have "st' = st\<lparr>cs_queue := rest\<rparr>" using sc s by simp
    then show ?thesis using cpp_inv_pop[OF i0 True subset_refl] by (simp add: cpp_ok_def)
  next
    case False
    then have nw: "\<not> Winning bs" using sc s by (auto split: if_splits)
    let ?vis = "insert (the_Board bs) (cs_visited st)"
    have st': "st' = Visit st bs (foldl push_kid (rest, cs_previousMoves st) (Children (the_Board bs) bs))"
      using sc s False nw by simp
    have i1: "cpp_inv init ?vis (rest, cs_previousMoves st)"
      by (rule cpp_inv_pop[OF i0]) auto
    from cpp_inv_head[OF i0 False] obtain sn ms where
      t: "Trail init (snd (rest, cs_previousMoves st)) bs sn ms" by auto
    from cpp_inv_push_all[OF v i1 t Children_legal[OF p]]
    show ?thesis unfolding st' cpp_ok_def Visit_def by simp
  qed
qed

lemma cpp_ok_initial:
  "valid_config init \<Longrightarrow>
   cpp_ok init \<lparr>cs_queue = [init], cs_visited = {},
                 cs_previousMoves = [the_Board init \<mapsto> \<lparr>cm_blockId = - 1, cm_move = Left\<rparr>]\<rparr>"
proof -
  assume v: "valid_config init"
  let ?prev = "[the_Board init \<mapsto> \<lparr>cm_blockId = - 1, cm_move = Left\<rparr>]"
  have t: "Trail init ?prev init [init] []" by (rule Trail.Start) (simp add: sentinel_def)
  have "\<exists>q1 bs q2. [init] = q1 @ bs # q2 \<and> the_Board bs = b \<and> (\<forall>x\<in>set q1. the_Board x \<noteq> b) \<and>
            (\<exists>snaps moves. Trail init ?prev bs snaps moves)" if "b \<in> dom ?prev" for b
    using that t by (intro exI[of _ "[]"] exI[of _ init]) (auto split: if_splits)
  then show ?thesis unfolding cpp_ok_def cpp_inv_def using arrangement_init[OF v]
    by (simp del: fun_upd_apply dom_fun_upd) auto
qed









subsection \<open>Both solvers on the blocked board\<close>

lemma valid_blocked_board: "valid_config blocked_board"
  by code_simp

lemma solveBoard_blocked_board:
  "solveBoard 20 blocked_board =
     Some (Solved [blocked_board, blocked_board[1 := shift (blocked_board ! 1) Down 2]]
                  [\<lparr>mv_blockId = 1, mv_steps = 2, mv_direction = Down\<rparr>])"
  by code_simp

lemma SolveBoard_blocked_board:
  "SolveBoard 20 blocked_board =
     Some (Escaped [blocked_board, blocked_board[1 := shift (blocked_board ! 1) Down 1],
                    blocked_board[1 := shift (blocked_board ! 1) Down 2]]
                   [\<lparr>cm_blockId = 1, cm_move = Down\<rparr>, \<lparr>cm_blockId = 1, cm_move = Down\<rparr>])"
  by code_simp

section \<open>Breadth-first order and termination\<close>

lemma run_slides_snoc:
  "run_slides bs (sl @ [x]) = (case run_slides bs sl of None \<Rightarrow> None | Some s \<Rightarrow> do_slide s x)"
  by (induction sl arbitrary: bs) (auto split: option.splits)

lemma run_slides_arrangement:
  assumes "arrangement init bs" "run_slides bs sl = Some s"
  shows "arrangement init s"
  using assms
proof (induction sl arbitrary: bs)
  case Nil
  then show ?case by simp
next
  case (Cons x sl)
  obtain i dir d where x: "x = (i, dir, d)" by (cases x) auto
  from Cons.prems(2) x have l: "legal_slide bs i dir d"
    and r: "run_slides (bs[i := shift (bs ! i) dir d]) sl = Some s"
    by (auto simp: do_slide_def split: if_splits)
  from Cons.IH[OF arrangement_slide[OF Cons.prems(1) l] r] show ?case .
qed

lemma legal_slide_le5:
  assumes "placed bs" "legal_slide bs i dir d"
  shows "d \<le> 5"
proof -
  from assms(2) have i: "i < length bs" and al: "along (bs ! i) dir" and d: "1 \<le> d"
    and f: "free_in bs (entered (bs ! i) dir d)" by (auto simp: legal_slide_def)
  note b = placed_block_bounds[OF assms(1) nth_mem[OF i]]
  from assms(1) i have l: "1 \<le> blk_length (bs ! i)" by (auto simp: placed_def)
  from f have "in_grid (fst (entered (bs ! i) dir d)) (snd (entered (bs ! i) dir d))"
    by (simp add: free_in_def)
  then show ?thesis using b l by (cases dir) (auto simp: entered_def in_grid_def)
qed

lemma legal_generated:
  assumes "placed bs" "legal_slide bs i dir d"
  shows "slide_move (bs ! i) dir d \<in> set (findBlockMoves (the_board bs) (bs ! i))"
proof -
  from assms(2) have i: "i < length bs" by (simp add: legal_slide_def)
  show ?thesis unfolding generated_legal[OF placed_make_board[OF assms(1)] i]
    using assms(2) legal_slide_le5[OF assms] by blast
qed

lemma sorted_hd_min:
  assumes "sorted (map fst q)" "e \<in> set q"
  shows "fst (hd q) \<le> fst e"
proof (cases q)
  case Nil
  then show ?thesis using assms(2) by simp
next
  case (Cons a q')
  then show ?thesis using assms by auto
qed

lemma ml_bfs_initial:
  "ml_bfs init (initial_state init (the_board init))"
  unfolding ml_bfs_def initial_state_def
  by (auto simp: queued_def split: if_splits)

lemma ml_bfs_skip:
  assumes inv: "ml_inv init st" and bfs: "ml_bfs init st"
    and q: "ss_queue st = (L, mv, bs) # rest" and vis: "the_board bs \<in> ss_visited st"
  shows "ml_bfs init (st\<lparr>ss_queue := rest\<rparr>)"
proof -
  let ?st' = "st\<lparr>ss_queue := rest\<rparr>"
  from bfs q have so: "sorted (map fst ((L, mv, bs) # rest))" by (simp add: ml_bfs_def)
  from bfs q have up: "\<forall>e\<in>set rest. fst e \<le> L + 1" by (simp add: ml_bfs_def)
  from bfs q have lo: "\<And>b lvl m. ss_previousMoves st (b, lvl) = Some m \<Longrightarrow> lvl \<le> L"
    unfolding ml_bfs_def by fastforce
  from inv vis obtain l0 m0 where l0: "1 \<le> l0" "ss_previousMoves st (the_board bs, l0) = Some m0"
    unfolding ml_inv_def by blast
  have l0L: "l0 \<le> L" using lo[OF l0(2)] .
  have keep: "recorded ?st' c l \<or> queued ?st' c l" if "recorded st c l \<or> queued st c l" for c l
  proof -
    from that show ?thesis
    proof
      assume "recorded st c l"
      then show ?thesis by (simp add: recorded_def)
    next
      assume "queued st c l"
      then obtain l' m where e: "l' \<le> l" "(l', m, c) \<in> set (ss_queue st)" by (auto simp: queued_def)
      show ?thesis
      proof (cases "(l', m, c) \<in> set rest")
        case True
        then show ?thesis using e(1) by (auto simp: queued_def)
      next
        case False
        with e(2) q have "l' = L" "c = bs" by auto
        then have "recorded ?st' c l" using l0 l0L e(1) by (auto simp: recorded_def)
        then show ?thesis ..
      qed
    qed
  qed
  have 1: "sorted (map fst rest)" using so by simp
  have 2: "fst e \<le> fst (hd rest) + 1" if "e \<in> set rest" for e
  proof -
    have "L \<le> fst (hd rest)" using so that by (cases rest) auto
    with up that show ?thesis by fastforce
  qed
  have 3: "lvl \<le> fst e" if "ss_previousMoves st (b, lvl) = Some m" "e \<in> set rest" for b lvl m e
    using bfs q that unfolding ml_bfs_def by (metis list.set_intros(2))
  have 4: "\<not> winning bs' \<and> (\<forall>i dir d. legal_slide bs' i dir d \<longrightarrow>
             recorded ?st' (bs'[i := shift (bs' ! i) dir d]) (lvl + 1) \<or>
             queued ?st' (bs'[i := shift (bs' ! i) dir d]) (lvl + 1))"
    if "arrangement init bs'" "1 \<le> lvl" "ss_previousMoves st (the_board bs', lvl) = Some m" for bs' lvl m
  proof -
    from bfs that have a: "\<not> winning bs'" and b: "\<And>i dir d. legal_slide bs' i dir d \<Longrightarrow>
             recorded st (bs'[i := shift (bs' ! i) dir d]) (lvl + 1) \<or>
             queued st (bs'[i := shift (bs' ! i) dir d]) (lvl + 1)"
      unfolding ml_bfs_def by blast+
    show ?thesis using a keep[OF b] by blast
  qed
  have 5: "recorded ?st' init 1 \<or> queued ?st' init 1"
    using bfs keep unfolding ml_bfs_def by blast
  show ?thesis unfolding ml_bfs_def
  proof (intro conjI)
    show "sorted (map fst (ss_queue ?st'))" using 1 by simp
    show "\<forall>e\<in>set (ss_queue ?st'). fst e \<le> fst (hd (ss_queue ?st')) + 1" using 2 by simp
    show "\<forall>b lvl mv e. ss_previousMoves ?st' (b, lvl) = Some mv \<and> e \<in> set (ss_queue ?st') \<longrightarrow> lvl \<le> fst e"
      using 3 by fastforce
    show "\<forall>bs lvl mv. arrangement init bs \<and> 1 \<le> lvl \<and> ss_previousMoves ?st' (the_board bs, lvl) = Some mv \<longrightarrow>
          \<not> winning bs \<and>
          (\<forall>i dir d. legal_slide bs i dir d \<longrightarrow>
             recorded ?st' (bs[i := shift (bs ! i) dir d]) (lvl + 1) \<or>
             queued ?st' (bs[i := shift (bs ! i) dir d]) (lvl + 1))"
    proof (intro allI impI)
      fix bs' lvl m
      assume h: "arrangement init bs' \<and> 1 \<le> lvl \<and> ss_previousMoves ?st' (the_board bs', lvl) = Some m"
      then have "ss_previousMoves st (the_board bs', lvl) = Some m" by simp
      from 4[OF _ _ this] h show "\<not> winning bs' \<and>
          (\<forall>i dir d. legal_slide bs' i dir d \<longrightarrow>
             recorded ?st' (bs'[i := shift (bs' ! i) dir d]) (lvl + 1) \<or>
             queued ?st' (bs'[i := shift (bs' ! i) dir d]) (lvl + 1))" by blast
    qed
    show "recorded ?st' init 1 \<or> queued ?st' init 1" by (rule 5)
  qed
qed

lemma map_le_Some: "m \<subseteq>\<^sub>m m' \<Longrightarrow> m k = Some v \<Longrightarrow> m' k = Some v"
  by (metis domI map_le_def)

lemma sorted_const: "(\<forall>e\<in>set xs. f e = (c::int)) \<Longrightarrow> sorted (map f xs)"
  by (induction xs) auto

lemma ml_bfs_visit:
  assumes v: "valid_config init" and inv: "ml_inv init st" and bfs: "ml_bfs init st"
    and q: "ss_queue st = (L, mv, bs) # rest" and nv: "the_board bs \<notin> ss_visited st"
    and nw: "\<not> winning bs"
  shows "ml_bfs init (visit st L mv bs
           (rest @ children (insert (the_board bs) (ss_visited st)) L (the_board bs) bs))"
proof -
  let ?vis' = "insert (the_board bs) (ss_visited st)"
  let ?kids = "children ?vis' L (the_board bs) bs"
  let ?st' = "visit st L mv bs (rest @ ?kids)"
  let ?prev = "ss_previousMoves st"
  let ?prev' = "?prev((the_board bs, L) \<mapsto> mv)"
  note a = ml_inv_head(2)[OF v inv q]
  note L1 = ml_inv_head(3)[OF v inv q]
  from a have p: "placed bs" by (simp add: arrangement_def)
  note le = ml_inv_fresh_key[OF v inv q nv]
  have ext: "?prev' k = Some m" if "?prev k = Some m" for k m
    by (rule map_le_Some[OF le that])
  have new: "?prev' (the_board bs, L) = Some mv" by simp
  have sel: "ss_queue ?st' = rest @ ?kids" "ss_previousMoves ?st' = ?prev'"
    by (simp_all add: visit_def)
  from bfs q have so: "sorted (map fst ((L, mv, bs) # rest))" by (simp add: ml_bfs_def)
  then have lowr: "\<forall>e\<in>set rest. L \<le> fst e" by auto
  from bfs q have up: "\<forall>e\<in>set rest. fst e \<le> L + 1" by (simp add: ml_bfs_def)
  from bfs q have lo: "\<And>b lvl m. ?prev (b, lvl) = Some m \<Longrightarrow> lvl \<le> L"
    unfolding ml_bfs_def by fastforce
  have kl: "\<forall>e\<in>set ?kids. fst e = L + 1" by (auto simp: children_iff)
  have rec_new: "recorded ?st' bs l" if "L \<le> l" for l
    unfolding recorded_def sel using L1 that new by blast
  have rec_old: "recorded ?st' c l" if "recorded st c l" for c l
    using that ext unfolding recorded_def sel by blast
  have rec_vis: "recorded ?st' c l" if "the_board c \<in> ss_visited st" "L \<le> l" for c l
  proof -
    from inv that(1) obtain l0 m0 where l0: "1 \<le> l0" "?prev (the_board c, l0) = Some m0"
      unfolding ml_inv_def by blast
    from lo[OF l0(2)] that(2) have "l0 \<le> l" by simp
    with l0 ext show ?thesis unfolding recorded_def sel by blast
  qed
  have keep: "recorded ?st' c l \<or> queued ?st' c l" if "recorded st c l \<or> queued st c l" for c l
    using that
  proof
    assume "recorded st c l"
    then show ?thesis using rec_old by blast
  next
    assume "queued st c l"
    then obtain l' m where e: "l' \<le> l" "(l', m, c) \<in> set (ss_queue st)" by (auto simp: queued_def)
    show ?thesis
    proof (cases "(l', m, c) \<in> set rest")
      case True
      then have "queued ?st' c l" using e(1) unfolding queued_def sel by auto
      then show ?thesis ..
    next
      case False
      with e(2) q have "l' = L" "c = bs" by auto
      then show ?thesis using rec_new e(1) by blast
    qed
  qed
  have 1: "sorted (map fst (rest @ ?kids))"
    using so kl up sorted_const[OF kl] by (auto simp: sorted_append)
  have 2: "fst e \<le> fst (hd (rest @ ?kids)) + 1" if "e \<in> set (rest @ ?kids)" for e
  proof -
    have "hd (rest @ ?kids) \<in> set (rest @ ?kids)" using that by (intro hd_in_set) auto
    then have "L \<le> fst (hd (rest @ ?kids))" using lowr kl by fastforce
    moreover have "fst e \<le> L + 1" using that up kl by fastforce
    ultimately show ?thesis by simp
  qed
  have 3: "lvl \<le> fst e" if "?prev' (b, lvl) = Some m" "e \<in> set (rest @ ?kids)" for b lvl m e
  proof -
    have "lvl \<le> L" using that(1) lo by (auto split: if_splits)
    moreover have "L \<le> fst e" using that(2) lowr kl by fastforce
    ultimately show ?thesis by simp
  qed
  have 4: "\<not> winning bs' \<and> (\<forall>i dir d. legal_slide bs' i dir d \<longrightarrow>
             recorded ?st' (bs'[i := shift (bs' ! i) dir d]) (lvl + 1) \<or>
             queued ?st' (bs'[i := shift (bs' ! i) dir d]) (lvl + 1))"
    if h: "arrangement init bs'" "1 \<le> lvl" "?prev' (the_board bs', lvl) = Some m" for bs' lvl m
  proof (cases "(the_board bs', lvl) = (the_board bs, L)")
    case True
    then have eq: "bs' = bs" "lvl = L" using the_board_inj[OF v h(1) a] by auto
    have "recorded ?st' (bs[i := shift (bs ! i) dir d]) (L + 1) \<or>
          queued ?st' (bs[i := shift (bs ! i) dir d]) (L + 1)" if l: "legal_slide bs i dir d" for i dir d
    proof -
      let ?c = "bs[i := shift (bs ! i) dir d]"
      from l have i: "i < length bs" by (simp add: legal_slide_def)
      note g = legal_generated[OF p l]
      show ?thesis
      proof (cases "the_board ?c \<in> ?vis'")
        case False
        then have "(L + 1, snd (slide_move (bs ! i) dir d), ?c) \<in> set ?kids"
          unfolding children_iff using i g
          by (intro exI[of _ i] exI[of _ "slide_move (bs ! i) dir d"]) (simp add: slide_move_def)
        then have "queued ?st' ?c (L + 1)" unfolding queued_def sel by auto
        then show ?thesis ..
      next
        case True
        then consider "the_board ?c = the_board bs" | "the_board ?c \<in> ss_visited st" by auto
        then have "recorded ?st' ?c (L + 1)"
        proof cases
          case 1
          then show ?thesis using L1 new unfolding recorded_def sel
            by (intro exI[of _ L] exI[of _ mv]) simp
        next
          case 2
          then show ?thesis using rec_vis by simp
        qed
        then show ?thesis ..
      qed
    qed
    then show ?thesis using eq nw by blast
  next
    case False
    then have old: "?prev (the_board bs', lvl) = Some m" using h(3) by (simp split: if_splits)
    from bfs h(1,2) old have a: "\<not> winning bs'" and b: "\<And>i dir d. legal_slide bs' i dir d \<Longrightarrow>
             recorded st (bs'[i := shift (bs' ! i) dir d]) (lvl + 1) \<or>
             queued st (bs'[i := shift (bs' ! i) dir d]) (lvl + 1)"
      unfolding ml_bfs_def by blast+
    show ?thesis using a keep[OF b] by blast
  qed
  have 5: "recorded ?st' init 1 \<or> queued ?st' init 1"
    using bfs keep unfolding ml_bfs_def by blast
  show ?thesis unfolding ml_bfs_def sel
  proof (intro conjI)
    show "sorted (map fst (rest @ ?kids))" by (rule 1)
    show "\<forall>e\<in>set (rest @ ?kids). fst e \<le> fst (hd (rest @ ?kids)) + 1" using 2 by blast
    show "\<forall>b lvl mv e. ?prev' (b, lvl) = Some mv \<and> e \<in> set (rest @ ?kids) \<longrightarrow> lvl \<le> fst e"
      using 3 by blast
    show "\<forall>bs lvl mv. arrangement init bs \<and> 1 \<le> lvl \<and> ?prev' (the_board bs, lvl) = Some mv \<longrightarrow>
          \<not> winning bs \<and>
          (\<forall>i dir d. legal_slide bs i dir d \<longrightarrow>
             recorded ?st' (bs[i := shift (bs ! i) dir d]) (lvl + 1) \<or>
             queued ?st' (bs[i := shift (bs ! i) dir d]) (lvl + 1))"
      using 4 by blast
    show "recorded ?st' init 1 \<or> queued ?st' init 1" by (rule 5)
  qed
qed

lemma ml_bfs_step:
  assumes v: "valid_config init" and inv: "ml_inv init st" and bfs: "ml_bfs init st"
    and s: "step st = Continue st'"
  shows "ml_bfs init st'"
proof (cases "ss_queue st")
  case Nil
  then show ?thesis using s by (simp add: step_def)
next
  case (Cons e rest)
  obtain level mv bs where e: "e = (level, mv, bs)" by (cases e) auto
  with Cons have q: "ss_queue st = (level, mv, bs) # rest" by simp
  note a = ml_inv_head(2)[OF v inv q]
  note sc = step_cases[OF v a q]
  show ?thesis
  proof (cases "the_board bs \<in> ss_visited st")
    case True
    then have "st' = st\<lparr>ss_queue := rest\<rparr>" using sc s by simp
    then show ?thesis using ml_bfs_skip[OF inv bfs q True] by simp
  next
    case False
    then have nw: "\<not> winning bs" using sc s by (auto split: if_splits)
    then have "st' = visit st level mv bs
             (rest @ children (insert (the_board bs) (ss_visited st)) level (the_board bs) bs)"
      using sc s False by simp
    then show ?thesis using ml_bfs_visit[OF v inv bfs q False nw] by simp
  qed
qed

lemma reach_recorded:
  assumes v: "valid_config init" and inv: "ml_inv init st" and bfs: "ml_bfs init st"
    and r: "run_slides init sl = Some s"
    and far: "\<forall>e\<in>set (ss_queue st). int (length sl) + 1 < fst e"
  shows "recorded st s (int (length sl) + 1)"
  using r far
proof (induction sl arbitrary: s rule: rev_induct)
  case Nil
  then have s: "s = init" by simp
  from bfs have "recorded st init 1 \<or> queued st init 1" by (simp add: ml_bfs_def)
  moreover have "\<not> queued st init 1" using Nil.prems(2) unfolding queued_def by fastforce
  ultimately show ?case using s by simp
next
  case (snoc x sl)
  from snoc.prems(1) obtain s' where s': "run_slides init sl = Some s'" "do_slide s' x = Some s"
    by (auto simp: run_slides_snoc split: option.splits)
  obtain i dir d where x: "x = (i, dir, d)" by (cases x) auto
  from s'(2) x have l: "legal_slide s' i dir d" and s: "s = s'[i := shift (s' ! i) dir d]"
    by (auto simp: do_slide_def split: if_splits)
  have far': "\<forall>e\<in>set (ss_queue st). int (length sl) + 1 < fst e" using snoc.prems(2) by fastforce
  from snoc.IH[OF s'(1) far'] obtain l' m where
    l': "1 \<le> l'" "l' \<le> int (length sl) + 1" "ss_previousMoves st (the_board s', l') = Some m"
    by (auto simp: recorded_def)
  have as': "arrangement init s'" by (rule run_slides_arrangement[OF arrangement_init[OF v] s'(1)])
  from bfs as' l'(1,3) l have "recorded st s (l' + 1) \<or> queued st s (l' + 1)"
    unfolding ml_bfs_def s by blast
  moreover have "\<not> queued st s (l' + 1)"
  proof
    assume "queued st s (l' + 1)"
    then obtain l2 m2 where "l2 \<le> l' + 1" "(l2, m2, s) \<in> set (ss_queue st)" by (auto simp: queued_def)
    with snoc.prems(2) l'(2) show False by fastforce
  qed
  ultimately have "recorded st s (l' + 1)" by simp
  then show ?case using l'(2) unfolding recorded_def by fastforce
qed

lemma recorded_not_winning:
  assumes "ml_bfs init st" "arrangement init s" "recorded st s l"
  shows "\<not> winning s"
  using assms unfolding ml_bfs_def recorded_def by blast

lemma solveLoop_minimal:
  assumes v: "valid_config init" and inv: "ml_inv init st" and bfs: "ml_bfs init st"
    and s: "solveLoop n st = Some (Solved snaps moves)"
    and r: "run_slides init sl = Some w" "winning w"
  shows "length moves \<le> length sl"
  using inv bfs s
proof (induction n arbitrary: st)
  case 0
  then show ?case by simp
next
  case (Suc n)
  show ?case
  proof (cases "ss_queue st")
    case Nil
    then show ?thesis using Suc.prems(3) by (simp add: step_def)
  next
    case (Cons e rest)
    obtain level mv bs where e: "e = (level, mv, bs)" by (cases e) auto
    with Cons have q: "ss_queue st = (level, mv, bs) # rest" by simp
    note a = ml_inv_head(2)[OF v Suc.prems(1) q]
    note sc = step_cases[OF v a q]
    show ?thesis
    proof (cases "the_board bs \<notin> ss_visited st \<and> winning bs")
      case True
      let ?prev' = "(ss_previousMoves st)((the_board bs, level) \<mapsto> mv)"
      from ml_inv_head(1)[OF v Suc.prems(1) q] obtain sn ms where
        t0: "trail init (ss_previousMoves st) level mv bs sn ms" by blast
      from trail_mono[OF this ml_inv_fresh_key[OF v Suc.prems(1) q]] True
      have t: "trail init ?prev' level mv bs sn ms" by simp
      from Suc.prems(3) sc True obtain res where
        b: "backtrack n ?prev' (the_board bs) bs level [bs] [] = Some res"
        and res: "res = Inr (snaps, moves)"
        by (auto simp: visit_def split: option.splits sum.splits)
      from backtrack_result[OF v t _ b] res have "ms = moves" by auto
      with trail_shape[OF t] have len: "int (length moves) = level - 1" by simp
      show ?thesis
      proof (rule ccontr)
        assume "\<not> length moves \<le> length sl"
        then have "int (length sl) + 1 < level" using len by linarith
        moreover from Suc.prems(2) q have "\<forall>e\<in>set (ss_queue st). level \<le> fst e"
          using sorted_hd_min[of "ss_queue st"] by (fastforce simp: ml_bfs_def)
        ultimately have far: "\<forall>e\<in>set (ss_queue st). int (length sl) + 1 < fst e" by fastforce
        from reach_recorded[OF v Suc.prems(1,2) r(1) far]
        have "recorded st w (int (length sl) + 1)" .
        from recorded_not_winning[OF Suc.prems(2) run_slides_arrangement[OF arrangement_init[OF v] r(1)] this]
          r(2) show False by simp
      qed
    next
      case False
      then obtain st' where st': "step st = Continue st'" using sc by (auto split: if_splits)
      from Suc.prems(3) st' have "solveLoop n st' = Some (Solved snaps moves)" by simp
      from Suc.IH[OF ml_inv_step[OF v Suc.prems(1) st'] ml_bfs_step[OF v Suc.prems(1,2) st'] this]
      show ?thesis .
    qed
  qed
qed

lemma solveLoop_exhausted:
  assumes v: "valid_config init" and inv: "ml_inv init st" and bfs: "ml_bfs init st"
    and s: "solveLoop n st = Some NoSolution"
    and r: "run_slides init sl = Some w"
  shows "\<not> winning w"
  using inv bfs s
proof (induction n arbitrary: st)
  case 0
  then show ?case by simp
next
  case (Suc n)
  show ?case
  proof (cases "ss_queue st")
    case Nil
    then have far: "\<forall>e\<in>set (ss_queue st). int (length sl) + 1 < fst e" by simp
    from reach_recorded[OF v Suc.prems(1,2) r far]
    have "recorded st w (int (length sl) + 1)" .
    from recorded_not_winning[OF Suc.prems(2) run_slides_arrangement[OF arrangement_init[OF v] r] this]
    show ?thesis .
  next
    case (Cons e rest)
    obtain level mv bs where e: "e = (level, mv, bs)" by (cases e) auto
    with Cons have q: "ss_queue st = (level, mv, bs) # rest" by simp
    note a = ml_inv_head(2)[OF v Suc.prems(1) q]
    note sc = step_cases[OF v a q]
    show ?thesis
    proof (cases "the_board bs \<notin> ss_visited st \<and> winning bs")
      case True
      then show ?thesis using Suc.prems(3) sc
        by (auto split: option.splits sum.splits)
    next
      case False
      then obtain st' where st': "step st = Continue st'" using sc by (auto split: if_splits)
      from Suc.prems(3) st' have "solveLoop n st' = Some NoSolution" by simp
      from Suc.IH[OF ml_inv_step[OF v Suc.prems(1) st'] ml_bfs_step[OF v Suc.prems(1,2) st'] this]
      show ?thesis .
    qed
  qed
qed

lemma finite_arrangements: "finite {bs. arrangement init bs}"
proof -
  let ?mk = "\<lambda>(s, y, x). \<lparr>blk_id = fst s, blk_y = y, blk_x = x, blk_isHorizontal = fst (snd s),
                          blk_kind = fst (snd (snd s)), blk_length = snd (snd (snd s))\<rparr>"
  let ?S = "?mk ` (set (map shape init) \<times> {0..5} \<times> {0..5})"
  have fS: "finite ?S" by simp
  have "{bs. arrangement init bs} \<subseteq> {bs. set bs \<subseteq> ?S \<and> length bs = length init}"
  proof
    fix bs assume "bs \<in> {bs. arrangement init bs}"
    then have a: "arrangement init bs" by simp
    then have p: "placed bs" and sh: "map shape bs = map shape init" by (auto simp: arrangement_def)
    have "b \<in> ?S" if "b \<in> set bs" for b
    proof -
      from that have "shape b \<in> set (map shape bs)" by simp
      then have 1: "shape b \<in> set (map shape init)" using sh by simp
      note bd = placed_block_bounds[OF p that]
      have "b = ?mk (shape b, blk_y b, blk_x b)" by (simp add: shape_def)
      moreover have "(shape b, blk_y b, blk_x b) \<in> set (map shape init) \<times> {0..5} \<times> {0..5}"
        using 1 bd by auto
      ultimately show ?thesis by (rule image_eqI)
    qed
    then show "bs \<in> {bs. set bs \<subseteq> ?S \<and> length bs = length init}"
      using arrangement_ids(2)[OF a] by auto
  qed
  then show ?thesis using finite_lists_length_eq[OF fS, of "length init"] by (rule finite_subset)
qed

lemma card_shrinks:
  assumes "finite B" "b \<in> B" "b \<notin> V"
  shows "card (B - insert b V) < card (B - V)"
proof -
  have "B - insert b V \<subset> B - V" using assms(2,3) by auto
  then show ?thesis using assms(1) by (intro psubset_card_mono) auto
qed

lemma solveLoop_terminates_aux:
  assumes v: "valid_config init"
  shows "ml_inv init st \<Longrightarrow> card (the_board ` {bs. arrangement init bs} - ss_visited st) = N \<Longrightarrow>
         \<exists>n r. solveLoop n st = Some r \<and> (r = NoSolution \<or> (\<exists>snaps moves. r = Solved snaps moves))"
proof (induction N arbitrary: st rule: less_induct)
  case outer: (less N)
  let ?B = "the_board ` {bs. arrangement init bs}"
  have fin: "finite ?B" using finite_arrangements by simp
  show ?case using outer.prems
  proof (induction "length (ss_queue st)" arbitrary: st rule: less_induct)
    case inner: less
    show ?case
    proof (cases "ss_queue st")
      case Nil
      then have "solveLoop (Suc 0) st = Some NoSolution" by (simp add: step_def)
      then show ?thesis by blast
    next
      case (Cons e rest)
      obtain level mv bs where e: "e = (level, mv, bs)" by (cases e) auto
      with Cons have q: "ss_queue st = (level, mv, bs) # rest" by simp
      note a = ml_inv_head(2)[OF v inner.prems(1) q]
      note sc = step_cases[OF v a q]
      show ?thesis
      proof (cases "the_board bs \<in> ss_visited st")
        case True
        let ?st' = "st\<lparr>ss_queue := rest\<rparr>"
        have st': "step st = Continue ?st'" using sc True by simp
        have "\<exists>n r. solveLoop n ?st' = Some r \<and> (r = NoSolution \<or> (\<exists>snaps moves. r = Solved snaps moves))"
          by (rule inner.hyps) (use q inner.prems ml_inv_step[OF v inner.prems(1) st'] in auto)
        then obtain n r where "solveLoop n ?st' = Some r" "r = NoSolution \<or> (\<exists>snaps moves. r = Solved snaps moves)"
          by blast
        then have "solveLoop (Suc n) st = Some r \<and> (r = NoSolution \<or> (\<exists>snaps moves. r = Solved snaps moves))"
          using st' by simp
        then show ?thesis by blast
      next
        case False
        show ?thesis
        proof (cases "winning bs")
          case True
          let ?prev' = "(ss_previousMoves st)((the_board bs, level) \<mapsto> mv)"
          from ml_inv_head(1)[OF v inner.prems(1) q] obtain sn ms where
            "trail init (ss_previousMoves st) level mv bs sn ms" by blast
          from trail_mono[OF this ml_inv_fresh_key[OF v inner.prems(1) q False]]
          have t: "trail init ?prev' level mv bs sn ms" .
          have "backtrack (Suc (length ms)) ?prev' (the_board bs) bs level (bs # []) [] =
                Some (Inr (sn @ [], ms @ []))"
            by (rule backtrack_trail[OF v t]) simp_all
          then have "solveLoop (Suc (Suc (length ms))) st = Some (Solved sn ms)"
            using sc False True by (simp add: visit_def)
          then show ?thesis by blast
        next
          case nw: False
          let ?st' = "visit st level mv bs
             (rest @ children (insert (the_board bs) (ss_visited st)) level (the_board bs) bs)"
          have st': "step st = Continue ?st'" using sc False nw by simp
          have "the_board bs \<in> ?B" using a by blast
          from card_shrinks[OF fin this False]
          have "card (?B - ss_visited ?st') < N" using inner.prems(2) by (simp add: visit_def)
          from outer.IH[OF this ml_inv_step[OF v inner.prems(1) st'] refl]
          obtain n r where "solveLoop n ?st' = Some r" "r = NoSolution \<or> (\<exists>snaps moves. r = Solved snaps moves)"
            by blast
          then have "solveLoop (Suc n) st = Some r \<and> (r = NoSolution \<or> (\<exists>snaps moves. r = Solved snaps moves))"
            using st' by simp
          then show ?thesis by blast
        qed
      qed
    qed
  qed
qed

lemma solveLoop_terminates:
  assumes "valid_config init" "ml_inv init st"
  shows "\<exists>n r. solveLoop n st = Some r \<and> (r = NoSolution \<or> (\<exists>snaps moves. r = Solved snaps moves))"
  using solveLoop_terminates_aux[OF assms refl] .

lemma SolveLoop_terminates_aux:
  assumes v: "valid_config init"
  shows "cpp_ok init st \<Longrightarrow> card (the_Board ` {bs. arrangement init bs} - cs_visited st) = N \<Longrightarrow>
         \<exists>n r. SolveLoop n st = Some r \<and> (r = Exhausted \<or> (\<exists>snaps moves. r = Escaped snaps moves))"
proof (induction N arbitrary: st rule: less_induct)
  case outer: (less N)
  let ?B = "the_Board ` {bs. arrangement init bs}"
  have fin: "finite ?B" using finite_arrangements by simp
  show ?case using outer.prems
  proof (induction "length (cs_queue st)" arbitrary: st rule: less_induct)
    case inner: less
    show ?case
    proof (cases "cs_queue st")
      case Nil
      then have "SolveLoop (Suc 0) st = Some Exhausted" by (simp add: Step_def)
      then show ?thesis by blast
    next
      case (Cons bs rest)
      note a = cpp_ok_head[OF inner.prems(1) Cons]
      note sc = Step_cases[OF v a Cons]
      from inner.prems(1) Cons have i0: "cpp_inv init (cs_visited st) (bs # rest, cs_previousMoves st)"
        by (simp add: cpp_ok_def)
      show ?thesis
      proof (cases "the_Board bs \<in> cs_visited st")
        case True
        let ?st' = "st\<lparr>cs_queue := rest\<rparr>"
        have st': "Step st = Next ?st'" using sc True by simp
        have "\<exists>n r. SolveLoop n ?st' = Some r \<and> (r = Exhausted \<or> (\<exists>snaps moves. r = Escaped snaps moves))"
          by (rule inner.hyps) (use Cons inner.prems cpp_ok_Step[OF v inner.prems(1) st'] in auto)
        then obtain n r where "SolveLoop n ?st' = Some r" "r = Exhausted \<or> (\<exists>snaps moves. r = Escaped snaps moves)"
          by blast
        then have "SolveLoop (Suc n) st = Some r \<and> (r = Exhausted \<or> (\<exists>snaps moves. r = Escaped snaps moves))"
          using st' by simp
        then show ?thesis by blast
      next
        case False
        show ?thesis
        proof (cases "Winning bs")
          case True
          from cpp_inv_head[OF i0 False] obtain sn ms where
            t: "Trail init (cs_previousMoves st) bs sn ms" by blast
          have "Backtrack (Suc (length ms)) (cs_previousMoves st) (the_Board bs) bs (bs # []) [] =
                Some (Inr (sn @ [], ms @ []))"
            by (rule Backtrack_Trail[OF v t]) simp
          then have "SolveLoop (Suc (Suc (length ms))) st = Some (Escaped sn ms)"
            using sc False True by (simp add: Visit_def)
          then show ?thesis by blast
        next
          case nw: False
          let ?st' = "Visit st bs (foldl push_kid (rest, cs_previousMoves st) (Children (the_Board bs) bs))"
          have st': "Step st = Next ?st'" using sc False nw by simp
          have "the_Board bs \<in> ?B" using a by blast
          from card_shrinks[OF fin this False]
          have "card (?B - cs_visited ?st') < N" using inner.prems(2) by (simp add: Visit_def)
          from outer.IH[OF this cpp_ok_Step[OF v inner.prems(1) st'] refl]
          obtain n r where "SolveLoop n ?st' = Some r" "r = Exhausted \<or> (\<exists>snaps moves. r = Escaped snaps moves)"
            by blast
          then have "SolveLoop (Suc n) st = Some r \<and> (r = Exhausted \<or> (\<exists>snaps moves. r = Escaped snaps moves))"
            using st' by simp
          then show ?thesis by blast
        qed
      qed
    qed
  qed
qed

lemma SolveLoop_terminates:
  assumes "valid_config init" "cpp_ok init st"
  shows "\<exists>n r. SolveLoop n st = Some r \<and> (r = Exhausted \<or> (\<exists>snaps moves. r = Escaped snaps moves))"
  using SolveLoop_terminates_aux[OF assms refl] .

lemma solveBoard_loop:
  "valid_config init \<Longrightarrow> solveBoard n init = solveLoop n (initial_state init (the_board init))"
  by (simp add: solveBoard_def valid_config_def placed_make_board)

lemma SolveBoard_loop:
  "valid_config init \<Longrightarrow>
   SolveBoard n init = SolveLoop n \<lparr>cs_queue = [init], cs_visited = {},
                 cs_previousMoves = [the_Board init \<mapsto> \<lparr>cm_blockId = - 1, cm_move = Left\<rparr>]\<rparr>"
  by (simp add: SolveBoard_def valid_config_def placed_renderBlocks)

lemma trail_run_slides:
  assumes "trail init prev lvl mv bs snaps moves"
  shows "\<exists>sl. length sl = length moves \<and> run_slides init sl = Some bs"
  using assms
proof (induction rule: trail.induct)
  case start
  have "length [] = length ([]::move list) \<and> run_slides init [] = Some init" by simp
  then show ?case by blast
next
  case (extend lvl pmv pbs snaps moves i dir d)
  from extend.IH obtain sl where sl: "length sl = length moves" "run_slides init sl = Some pbs" by blast
  have "run_slides init (sl @ [(i, dir, d)]) = Some (pbs[i := shift (pbs ! i) dir d])"
    using sl(2) extend.hyps(3) by (simp add: run_slides_snoc do_slide_def)
  moreover have "length (sl @ [(i, dir, d)]) = length (moves @ [snd (slide_move (pbs ! i) dir d)])"
    using sl(1) by simp
  ultimately show ?case by blast
qed

lemma detour_blocked_board:
  "run_slides blocked_board [(1, Up, 1), (1, Down, 3)] = Some (blocked_board[1 := shift (blocked_board ! 1) Down 2])"
  by code_simp

lemma direct_blocked_board:
  "run_slides blocked_board [(1, Down, 2)] = Some (blocked_board[1 := shift (blocked_board ! 1) Down 2])"
  by code_simp

lemma winning_blocked_board: "winning (blocked_board[1 := shift (blocked_board ! 1) Down 2])"
  by code_simp

lemma Winning_blocked_board: "Winning (blocked_board[1 := shift (blocked_board ! 1) Down 2])"
  by code_simp

section \<open>The store of first arrivals\<close>

lemma solveLoop_ml_run:
  "ml_run k st = Some st' \<Longrightarrow> solveLoop (k + n) st = solveLoop n st'"
  by (induction k arbitrary: st) (auto split: step_result.splits)

lemma SolveLoop_cpp_run:
  "cpp_run k st = Some st' \<Longrightarrow> SolveLoop (k + n) st = SolveLoop n st'"
  by (induction k arbitrary: st) (auto split: cpp_step_result.splits)

lemma expand_levels:
  assumes "expand vis level brd blocks q = Inr q'"
  shows "\<exists>cs. q' = q @ cs \<and> (\<forall>e\<in>set cs. fst e = level + 1)"
proof -
  have child: "\<exists>cs. id s' = id s @ cs \<and> (\<forall>e\<in>set cs. fst e = level + 1)"
    if "add_child vis level blocks i bm s = Inr s'" for bm i s s'
    using add_child_cases[OF that] by auto
  have blk: "\<exists>cs. id s' = id s @ cs \<and> (\<forall>e\<in>set cs. fst e = level + 1)"
    if "add_children vis level brd blocks i s = Inr s'" for i s s'
    using that unfolding add_children_def
    by (rule foldE_appends) (use child in auto)
  from foldE_appends[where g=id, OF assms[unfolded expand_def] blk] show ?thesis by simp
qed

lemma ml_step_keys:
  assumes inv: "ml_keys st" and s: "step st = Continue st'"
  shows "ml_keys st' \<and> ss_previousMoves st \<subseteq>\<^sub>m ss_previousMoves st' \<and>
         ss_visited st \<subseteq> ss_visited st' \<and>
         (\<forall>b. ml_expands st = Some b \<longrightarrow> b \<in> ss_visited st')"
proof (cases "ss_queue st")
  case Nil
  then show ?thesis using s by (simp add: step_def)
next
  case (Cons e rest)
  obtain level mv bs where e: "e = (level, mv, bs)" by (cases e) auto
  with Cons have q: "ss_queue st = (level, mv, bs) # rest" by simp
  from inv q have lv: "1 \<le> level" and rl: "\<forall>e\<in>set rest. 1 \<le> fst e" by (auto simp: ml_keys_def)
  from s q obtain brd where mb: "make_board bs = Inr brd"
    by (auto simp: step_def split: sum.splits)
  show ?thesis
  proof (cases "brd \<in> ss_visited st")
    case True
    then have "st' = st\<lparr>ss_queue := rest\<rparr>" using s q mb by (simp add: step_def)
    then show ?thesis using True q mb inv rl by (simp add: ml_expands_def ml_keys_def)
  next
    case False
    from s q mb False obtain q' where
      ex: "expand (insert brd (ss_visited st)) level brd bs rest = Inr q'"
      and st': "st' = \<lparr>ss_queue = q', ss_visited = insert brd (ss_visited st),
                       ss_previousMoves = (ss_previousMoves st)((brd, level) \<mapsto> mv)\<rparr>"
      by (auto simp: step_def Let_def split: option.splits sum.splits bool.splits)
    from expand_levels[OF ex] obtain cs where cs: "q' = rest @ cs" "\<forall>e\<in>set cs. fst e = level + 1"
      by blast
    have fresh: "ss_previousMoves st (brd, level) = None"
    proof (rule ccontr)
      assume "ss_previousMoves st (brd, level) \<noteq> None"
      with inv lv have "brd \<in> ss_visited st" unfolding ml_keys_def by blast
      with False show False by simp
    qed
    have 1: "ml_keys st'"
      unfolding ml_keys_def
    proof (rule conjI)
      show "\<forall>e\<in>set (ss_queue st'). 1 \<le> fst e" using cs rl lv by (auto simp: st')
      show "\<forall>b l. 1 \<le> l \<longrightarrow> ss_previousMoves st' (b, l) \<noteq> None \<longrightarrow> b \<in> ss_visited st'"
        using inv by (auto simp: st' ml_keys_def)
    qed
    have 2: "ss_previousMoves st \<subseteq>\<^sub>m ss_previousMoves st'"
      using fresh by (auto simp: st' map_le_def)
    have 3: "ss_visited st \<subseteq> ss_visited st'" by (auto simp: st')
    have 4: "\<forall>b. ml_expands st = Some b \<longrightarrow> b \<in> ss_visited st'"
      using q mb by (auto simp: st' ml_expands_def)
    from 1 2 3 4 show ?thesis by blast
  qed
qed

lemma ml_run_keys:
  "ml_keys st \<Longrightarrow> ml_run k st = Some st' \<Longrightarrow>
     ml_keys st' \<and> ss_previousMoves st \<subseteq>\<^sub>m ss_previousMoves st' \<and> ss_visited st \<subseteq> ss_visited st'"
proof (induction k arbitrary: st)
  case 0
  then show ?case by simp
next
  case (Suc k)
  from Suc.prems(2) obtain s1 where s1: "step st = Continue s1" "ml_run k s1 = Some st'"
    by (auto split: step_result.splits)
  note m1 = ml_step_keys[OF Suc.prems(1) s1(1)]
  from m1 have "ml_keys s1" by blast
  from Suc.IH[OF this s1(2)] m1
  show ?case by (auto intro: map_le_trans)
qed

lemma ml_run_once:
  assumes inv: "ml_keys st" and r: "ml_run (Suc k) st = Some st'"
  shows "ss_previousMoves st \<subseteq>\<^sub>m ss_previousMoves st' \<and>
         (\<forall>b. ml_expands st = Some b \<longrightarrow> ml_expands st' \<noteq> Some b)"
proof -
  from r obtain s1 where s1: "step st = Continue s1" "ml_run k s1 = Some st'"
    by (auto split: step_result.splits)
  note m1 = ml_step_keys[OF inv s1(1)]
  from m1 have "ml_keys s1" by blast
  note m2 = ml_run_keys[OF this s1(2)]
  have "ml_expands st' \<noteq> Some b" if "ml_expands st = Some b" for b
  proof -
    from that m1 m2 have "b \<in> ss_visited st'" by blast
    then show ?thesis by (auto simp: ml_expands_def split: list.splits sum.splits if_splits)
  qed
  moreover from m1 m2 have "ss_previousMoves st \<subseteq>\<^sub>m ss_previousMoves st'"
    by (blast intro: map_le_trans)
  ultimately show ?thesis by blast
qed

lemma ml_keys_initial: "ml_keys (initial_state blocks brd)"
  by (simp add: ml_keys_def initial_state_def)

lemma foldE_map_le:
  assumes "foldE f xs s = Inr s'"
    and "\<And>x s s'. f x s = Inr s' \<Longrightarrow> snd s \<subseteq>\<^sub>m snd s'"
  shows "snd s \<subseteq>\<^sub>m snd s'"
  using assms(1)
proof (induction xs arbitrary: s)
  case Nil
  then show ?case by simp
next
  case (Cons x xs)
  from Cons.prems obtain s1 where s1: "f x s = Inr s1" "foldE f xs s1 = Inr s'"
    by (auto split: sum.splits)
  from assms(2)[OF s1(1)] Cons.IH[OF s1(2)] show ?case by (rule map_le_trans)
qed

lemma tryMove_map_le:
  assumes "tryMove brd blocks i inside ty tx moved d s = Inr s'"
  shows "snd s \<subseteq>\<^sub>m snd s'"
  using tryMove_cases[OF assms] by (auto simp: map_insert_le)

lemma expandBlock_map_le:
  assumes "expandBlock brd blocks i s = Inr s'"
  shows "snd s \<subseteq>\<^sub>m snd s'"
  using assms
  by (auto simp: expandBlock_def Let_def split: if_splits sum.splits
           dest!: tryMove_map_le intro: map_le_trans)

lemma expandAll_map_le:
  assumes "expandAll brd blocks s = Inr s'"
  shows "snd s \<subseteq>\<^sub>m snd s'"
  using assms unfolding expandAll_def by (rule foldE_map_le) (rule expandBlock_map_le)

lemma cpp_step_keys:
  assumes s: "Step st = Next st'"
  shows "cs_previousMoves st \<subseteq>\<^sub>m cs_previousMoves st' \<and> cs_visited st \<subseteq> cs_visited st' \<and>
         (\<forall>b. cpp_expands st = Some b \<longrightarrow> b \<in> cs_visited st')"
proof (cases "cs_queue st")
  case Nil
  then show ?thesis using s by (simp add: Step_def)
next
  case (Cons bs rest)
  from s Cons obtain brd where mb: "renderBlocks bs = Inr brd"
    by (auto simp: Step_def split: sum.splits)
  show ?thesis
  proof (cases "brd \<in> cs_visited st")
    case True
    then have "st' = st\<lparr>cs_queue := rest\<rparr>" using s Cons mb by (simp add: Step_def)
    then show ?thesis using True Cons mb by (simp add: cpp_expands_def)
  next
    case False
    from s Cons mb False obtain q prev where
      ex: "expandAll brd bs (rest, cs_previousMoves st) = Inr (q, prev)"
      and st': "st' = st\<lparr>cs_queue := q, cs_visited := insert brd (cs_visited st),
                          cs_previousMoves := prev\<rparr>"
      by (auto simp: Step_def Let_def split: option.splits sum.splits bool.splits)
    from expandAll_map_le[OF ex] have "cs_previousMoves st \<subseteq>\<^sub>m prev" by simp
    then show ?thesis using Cons mb by (auto simp: st' cpp_expands_def)
  qed
qed

lemma cpp_run_keys:
  "cpp_run k st = Some st' \<Longrightarrow>
     cs_previousMoves st \<subseteq>\<^sub>m cs_previousMoves st' \<and> cs_visited st \<subseteq> cs_visited st'"
proof (induction k arbitrary: st)
  case 0
  then show ?case by simp
next
  case (Suc k)
  from Suc.prems obtain s1 where s1: "Step st = Next s1" "cpp_run k s1 = Some st'"
    by (auto split: cpp_step_result.splits)
  from Suc.IH[OF s1(2)] cpp_step_keys[OF s1(1)]
  show ?case by (auto intro: map_le_trans)
qed

lemma cpp_run_once:
  assumes r: "cpp_run (Suc k) st = Some st'"
  shows "cs_previousMoves st \<subseteq>\<^sub>m cs_previousMoves st' \<and>
         (\<forall>b. cpp_expands st = Some b \<longrightarrow> cpp_expands st' \<noteq> Some b)"
proof -
  from r obtain s1 where s1: "Step st = Next s1" "cpp_run k s1 = Some st'"
    by (auto split: cpp_step_result.splits)
  note m1 = cpp_step_keys[OF s1(1)]
  note m2 = cpp_run_keys[OF s1(2)]
  have "cpp_expands st' \<noteq> Some b" if "cpp_expands st = Some b" for b
  proof -
    from that m1 m2 have "b \<in> cs_visited st'" by blast
    then show ?thesis by (auto simp: cpp_expands_def split: list.splits sum.splits if_splits)
  qed
  moreover from m1 m2 have "cs_previousMoves st \<subseteq>\<^sub>m cs_previousMoves st'"
    by (blast intro: map_le_trans)
  ultimately show ?thesis by blast
qed

lemma ml_run_blocked_board:
  "case ml_run (Suc 1) (initial_state blocked_board (the_board blocked_board)) of
     None \<Rightarrow> False | Some _ \<Rightarrow> True"
  by code_simp

lemma cpp_run_blocked_board:
  "case cpp_run (Suc 1) (cpp_initial blocked_board) of None \<Rightarrow> False | Some _ \<Rightarrow> True"
  by code_simp

lemma ml_expands_blocked_board:
  "ml_expands (initial_state blocked_board (the_board blocked_board)) = Some (the_board blocked_board)"
  by code_simp

lemma cpp_expands_blocked_board:
  "cpp_expands (cpp_initial blocked_board) = Some (the_Board blocked_board)"
  by code_simp

lemma valid_stuck_board: "valid_config stuck_board"
  by code_simp

lemma solveBoard_stuck_board: "solveBoard 20 stuck_board = Some NoSolution"
  by code_simp

lemma SolveBoard_stuck_board: "SolveBoard 20 stuck_board = Some Exhausted"
  by code_simp

lemma slide_stuck_board:
  "run_slides stuck_board [(0, Right, 3)] = Some (stuck_board[0 := shift (stuck_board ! 0) Right 3])"
  by code_simp

section \<open>The solvers on two more boards\<close>

lemma valid_interlocked_board: "valid_config interlocked_board"
  by code_simp

lemma interlocked_board_solvable:
  "map_option winning (run_slides interlocked_board interlocked_solution) = Some True"
  by code_simp

lemma interlocked_board_Solvable:
  "map_option Winning (run_slides interlocked_board interlocked_solution) = Some True"
  by code_simp

lemma SolveBoard_interlocked_board: "SolveBoard 60 interlocked_board = Some Exhausted"
  by code_simp

lemma valid_vertical_prisoner_board: "valid_config vertical_prisoner_board"
  by code_simp

lemma prisoner_vertical_prisoner_board:
  "find (\<lambda>b. blk_kind b = Prisoner) vertical_prisoner_board = Some (hd vertical_prisoner_board)"
  by code_simp

lemma tiles_vertical_prisoner_board:
  "tiles (hd vertical_prisoner_board) = [(1, 2), (2, 2)]"
  by code_simp

lemma tile_vertical_prisoner_board:
  "tile_at (brd_data (the_board vertical_prisoner_board)) 1 3 = Block"
  by code_simp

lemma Tile_vertical_prisoner_board:
  "Tile_at (the_Board vertical_prisoner_board) 1 3 = Block"
  by code_simp

lemma step_vertical_prisoner_board:
  "(case step (initial_state vertical_prisoner_board (the_board vertical_prisoner_board)) of
      Won st' brd blocks level \<Rightarrow> brd = the_board vertical_prisoner_board \<and> blocks = vertical_prisoner_board \<and> level = 1
    | _ \<Rightarrow> False)"
  by code_simp

lemma Step_vertical_prisoner_board:
  "(case Step (cpp_initial vertical_prisoner_board) of
      Found cst' cbrd blocks \<Rightarrow> cbrd = the_Board vertical_prisoner_board \<and> blocks = vertical_prisoner_board
    | _ \<Rightarrow> False)"
  by code_simp

lemma solveBoard_vertical_prisoner_board:
  "solveBoard 2 vertical_prisoner_board = Some (Solved [vertical_prisoner_board] [])"
  by code_simp

lemma SolveBoard_vertical_prisoner_board:
  "SolveBoard 2 vertical_prisoner_board = Some (Escaped [vertical_prisoner_board] [])"
  by code_simp

lemma solveBoard_finds_interlocked_board:
  "\<exists>n snaps moves. solveBoard n interlocked_board = Some (Solved snaps moves)"
proof -
  note v = valid_interlocked_board
  from interlocked_board_solvable obtain w where
    w: "run_slides interlocked_board interlocked_solution = Some w" "winning w"
    by (cases "run_slides interlocked_board interlocked_solution") auto
  from solveLoop_terminates[OF v ml_inv_initial] obtain n r where
    r: "solveLoop n (initial_state interlocked_board (the_board interlocked_board)) = Some r"
       "r = NoSolution \<or> (\<exists>snaps moves. r = Solved snaps moves)"
    by blast
  have "r \<noteq> NoSolution"
  proof
    assume "r = NoSolution"
    with r(1) solveLoop_exhausted[OF v ml_inv_initial ml_bfs_initial, of n interlocked_solution w] w
    show False by simp
  qed
  with r show ?thesis by (auto simp: solveBoard_loop[OF v])
qed

section \<open>The win test\<close>

text \<open>
  Claim C3, as amended. When a state whose prisoner block is horizontal is taken from the
  queue and its board is not yet visited, the solver declares it winning exactly when every
  tile of the prisoner's row strictly to the right of the prisoner's footprint, up to the
  last column, is empty on the board. Both solvers do so: \<open>solveBoard\<close> reaches its
  backtracking branch (\<open>Won\<close>) and \<open>SolveBoard\<close> its own (\<open>Found\<close>) under the same
  condition. The prisoner is the first block of kind \<open>Prisoner\<close> in the list.
\<close>

theorem win_check_right_of_prisoner:
  assumes blocks: "\<forall>b\<in>set blocks. block_in_grid b"
    and it: "find (\<lambda>b. blk_kind b = Prisoner) blocks = Some it" "blk_isHorizontal it" "1 \<le> blk_length it"
    and ml: "make_board blocks = Inr brd" "ss_queue st = (level, mv, blocks) # rest" "brd \<notin> ss_visited st"
    and cpp: "renderBlocks blocks = Inr cbrd" "cs_queue cst = blocks # crest" "cbrd \<notin> cs_visited cst"
  shows "((\<exists>st'. step st = Won st' brd blocks level) \<longleftrightarrow>
            (\<forall>x. (\<forall>t\<in>set (tiles it). snd t < x) \<and> x < 6 \<longrightarrow> tile_at (brd_data brd) (blk_y it) x = Empty))
       \<and> ((\<exists>cst'. Step cst = Found cst' cbrd blocks) \<longleftrightarrow>
            (\<forall>x. (\<forall>t\<in>set (tiles it). snd t < x) \<and> x < 6 \<longrightarrow> Tile_at cbrd (blk_y it) x = Empty))"
proof
  from it(1) have mem: "it \<in> set blocks" by (auto dest: find_Some_set)
  show "(\<exists>st'. step st = Won st' brd blocks level) \<longleftrightarrow>
            (\<forall>x. (\<forall>t\<in>set (tiles it). snd t < x) \<and> x < 6 \<longrightarrow> tile_at (brd_data brd) (blk_y it) x = Empty)"
    using ml it(1) allClear_ok[OF ml(1) mem it(2,3)]
    by (auto simp: step_def Let_def split: sum.splits bool.splits)
  show "(\<exists>cst'. Step cst = Found cst' cbrd blocks) \<longleftrightarrow>
            (\<forall>x. (\<forall>t\<in>set (tiles it). snd t < x) \<and> x < 6 \<longrightarrow> Tile_at cbrd (blk_y it) x = Empty)"
    using cpp it(1) canEscape_ok[OF cpp(1) blocks mem it(2,3)]
    by (auto simp: Step_def Let_def split: sum.splits bool.splits prod.splits)
qed

theorem win_check_right_of_prisoner_witness:
  "\<exists>brd cbrd. make_board scenario_A = Inr brd \<and> renderBlocks scenario_A = Inr cbrd \<and>
     ((\<exists>st'. step (initial_state scenario_A brd) = Won st' brd scenario_A 1) \<longleftrightarrow>
        (\<forall>x. (\<forall>t\<in>set (tiles (hd scenario_A)). snd t < x) \<and> x < 6 \<longrightarrow>
             tile_at (brd_data brd) (blk_y (hd scenario_A)) x = Empty)) \<and>
     ((\<exists>cst'. Step \<lparr>cs_queue = [scenario_A], cs_visited = {}, cs_previousMoves = Map.empty\<rparr>
               = Found cst' cbrd scenario_A) \<longleftrightarrow>
        (\<forall>x. (\<forall>t\<in>set (tiles (hd scenario_A)). snd t < x) \<and> x < 6 \<longrightarrow>
             Tile_at cbrd (blk_y (hd scenario_A)) x = Empty))"
proof -
  have ig: "\<forall>b\<in>set scenario_A. block_in_grid b"
    by (simp add: scenario_A_def block_in_grid_horizontal)
  from make_board_ok[OF ig] obtain brd where brd: "make_board scenario_A = Inr brd" by blast
  from renderBlocks_ok[OF ig] obtain cbrd where cbrd: "renderBlocks scenario_A = Inr cbrd" by blast
  have it: "find (\<lambda>b. blk_kind b = Prisoner) scenario_A = Some (hd scenario_A)"
    "blk_isHorizontal (hd scenario_A)" "1 \<le> blk_length (hd scenario_A)"
    by (simp_all add: scenario_A_def)
  have q: "ss_queue (initial_state scenario_A brd) = (1, dummyMove, scenario_A) # []"
    "brd \<notin> ss_visited (initial_state scenario_A brd)"
    by (simp_all add: initial_state_def)
  have cq: "cs_queue \<lparr>cs_queue = [scenario_A], cs_visited = {}, cs_previousMoves = Map.empty\<rparr>
              = scenario_A # []"
    "cbrd \<notin> cs_visited \<lparr>cs_queue = [scenario_A], cs_visited = {}, cs_previousMoves = Map.empty\<rparr>"
    by simp_all
  from win_check_right_of_prisoner[OF ig it brd q cbrd cq] brd cbrd
  show ?thesis by blast
qed

text \<open>
  Claim C3 as stated, for every state that holds a prisoner, fails when the prisoner is
  vertical: both solvers start the scan at column \<open>_x + _length\<close> of row \<open>_y\<close> whatever the
  orientation. On \<open>vertical_prisoner_board\<close> the prisoner covers column 2 only, the tile
  right of it in its row, column 3, holds a block, and both solvers declare the state
  winning.
\<close>

theorem vertical_prisoner_wins_behind_a_block:
  "valid_config vertical_prisoner_board \<and>
   find (\<lambda>b. blk_kind b = Prisoner) vertical_prisoner_board = Some (hd vertical_prisoner_board) \<and>
   tiles (hd vertical_prisoner_board) = [(1, 2), (2, 2)] \<and>
   tile_at (brd_data (the_board vertical_prisoner_board)) 1 3 = Block \<and>
   Tile_at (the_Board vertical_prisoner_board) 1 3 = Block \<and>
   (case step (initial_state vertical_prisoner_board (the_board vertical_prisoner_board)) of
      Won st' brd blocks level \<Rightarrow> brd = the_board vertical_prisoner_board \<and> blocks = vertical_prisoner_board \<and> level = 1
    | _ \<Rightarrow> False) \<and>
   (case Step (cpp_initial vertical_prisoner_board) of
      Found cst' cbrd blocks \<Rightarrow> cbrd = the_Board vertical_prisoner_board \<and> blocks = vertical_prisoner_board
    | _ \<Rightarrow> False) \<and>
   solveBoard 2 vertical_prisoner_board = Some (Solved [vertical_prisoner_board] []) \<and>
   SolveBoard 2 vertical_prisoner_board = Some (Escaped [vertical_prisoner_board] [])"
  using valid_vertical_prisoner_board prisoner_vertical_prisoner_board tiles_vertical_prisoner_board
    tile_vertical_prisoner_board Tile_vertical_prisoner_board step_vertical_prisoner_board
    Step_vertical_prisoner_board solveBoard_vertical_prisoner_board SolveBoard_vertical_prisoner_board
  by (intro conjI)

section \<open>Generated moves\<close>

text \<open>
  Claim C2. Every move the generator produces crosses only empty tiles of the board it was
  generated on. For \<open>findBlockMoves\<close>: a pair (new block, move) of its result has a distance
  of at least one, lies on the block's axis, is the block shifted by that distance, and every
  tile entered on the way (the tiles between the old and the new footprint) is inside the
  grid and empty; moreover every shorter distance in the same direction is in the result as
  well, so a scan stops at the first obstruction or at the edge and leaves no gap. For the C++
  expansion of one block: every list it queues is the parent with that block moved one tile
  along its axis onto a tile that the pre-move board holds empty.
\<close>

theorem generated_moves_cross_only_empty_tiles:
  assumes "(nb, mv) \<in> set (findBlockMoves brd blk)"
    and "expandBlock cbrd blocks i (cq, prev) = Inr (cq', prev')"
  shows "(1 \<le> mv_steps mv \<and> along blk (mv_direction mv) \<and> mv_blockId mv = blk_id blk \<and>
          nb = shift blk (mv_direction mv) (mv_steps mv) \<and>
          (\<forall>k\<in>{1..mv_steps mv}.
             in_grid (fst (entered blk (mv_direction mv) k)) (snd (entered blk (mv_direction mv) k)) \<and>
             tile_at (brd_data brd) (fst (entered blk (mv_direction mv) k))
               (snd (entered blk (mv_direction mv) k)) = Empty \<and>
             slide_move blk (mv_direction mv) k \<in> set (findBlockMoves brd blk))) \<and>
         (\<exists>cs. cq' = cq @ cs \<and>
            (\<forall>c\<in>set cs. \<exists>dir. along (blocks ! i) dir \<and> c = blocks[i := shift (blocks ! i) dir 1] \<and>
               Board_get cbrd (fst (entered (blocks ! i) dir 1)) (snd (entered (blocks ! i) dir 1)) = Inr Empty))"
proof
  from assms(1) obtain dir d where d: "along blk dir" "1 \<le> d" "d \<le> 5"
    "path_clear (brd_data brd) blk dir d" "(nb, mv) = slide_move blk dir d"
    by (auto simp: findBlockMoves_iff)
  have "slide_move blk dir k \<in> set (findBlockMoves brd blk)" if "k \<in> {1..d}" for k
    unfolding findBlockMoves_iff using d that
    by (intro exI[of _ dir] exI[of _ k]) (auto simp: path_clear_def)
  then show "1 \<le> mv_steps mv \<and> along blk (mv_direction mv) \<and> mv_blockId mv = blk_id blk \<and>
          nb = shift blk (mv_direction mv) (mv_steps mv) \<and>
          (\<forall>k\<in>{1..mv_steps mv}.
             in_grid (fst (entered blk (mv_direction mv) k)) (snd (entered blk (mv_direction mv) k)) \<and>
             tile_at (brd_data brd) (fst (entered blk (mv_direction mv) k))
               (snd (entered blk (mv_direction mv) k)) = Empty \<and>
             slide_move blk (mv_direction mv) k \<in> set (findBlockMoves brd blk))"
    using d by (auto simp: slide_move_def path_clear_def free_tile_def)
  from expandBlock_children[OF assms(2)]
  show "\<exists>cs. cq' = cq @ cs \<and>
            (\<forall>c\<in>set cs. \<exists>dir. along (blocks ! i) dir \<and> c = blocks[i := shift (blocks ! i) dir 1] \<and>
               Board_get cbrd (fst (entered (blocks ! i) dir 1)) (snd (entered (blocks ! i) dir 1)) = Inr Empty)"
    by (fastforce simp: can_step_def)
qed

theorem generated_moves_cross_only_empty_tiles_witness:
  "slide_move (blocked_board ! 1) Down 2
      \<in> set (findBlockMoves (the_board blocked_board) (blocked_board ! 1)) \<and>
   tile_at (brd_data (the_board blocked_board))
      (fst (entered (blocked_board ! 1) Down 1)) (snd (entered (blocked_board ! 1) Down 1)) = Empty \<and>
   tile_at (brd_data (the_board blocked_board))
      (fst (entered (blocked_board ! 1) Down 2)) (snd (entered (blocked_board ! 1) Down 2)) = Empty \<and>
   slide_move (blocked_board ! 1) Down 1
      \<in> set (findBlockMoves (the_board blocked_board) (blocked_board ! 1)) \<and>
   (\<exists>s'. expandBlock (the_Board blocked_board) blocked_board 1 ([], Map.empty) = Inr s' \<and>
      (\<forall>c\<in>set (fst s'). \<exists>dir. along (blocked_board ! 1) dir \<and>
           c = blocked_board[1 := shift (blocked_board ! 1) dir 1]))"
proof -
  note p = placed_blocked_board
  have mb: "make_board blocked_board = Inr (the_board blocked_board)" by (rule placed_make_board[OF p])
  have rb: "renderBlocks blocked_board = Inr (the_Board blocked_board)" by (rule placed_renderBlocks[OF p])
  have i: "1 < length blocked_board" by (simp add: blocked_board_def)
  have h1: "(shift (blocked_board ! 1) Down 2,
             \<lparr>mv_blockId = blk_id (blocked_board ! 1), mv_steps = 2, mv_direction = Down\<rparr>)
            \<in> set (findBlockMoves (the_board blocked_board) (blocked_board ! 1))"
    unfolding generated_legal[OF mb i] using blocked_board_down2
    by (intro exI[of _ Down] exI[of _ 2]) (simp add: slide_move_def)
  obtain cq' prev' where
    h2: "expandBlock (the_Board blocked_board) blocked_board 1 ([], Map.empty) = Inr (cq', prev')"
    using expandBlock_eq[OF p rb i] by (metis surj_pair)
  from generated_moves_cross_only_empty_tiles[OF h1 h2]
  have a: "\<forall>k\<in>{1..2}. tile_at (brd_data (the_board blocked_board))
        (fst (entered (blocked_board ! 1) Down k)) (snd (entered (blocked_board ! 1) Down k)) = Empty \<and>
      slide_move (blocked_board ! 1) Down k
        \<in> set (findBlockMoves (the_board blocked_board) (blocked_board ! 1))"
    and b: "\<forall>c\<in>set cq'. \<exists>dir. along (blocked_board ! 1) dir \<and>
           c = blocked_board[1 := shift (blocked_board ! 1) dir 1]"
    by auto
  have "\<exists>s'. expandBlock (the_Board blocked_board) blocked_board 1 ([], Map.empty) = Inr s' \<and>
      (\<forall>c\<in>set (fst s'). \<exists>dir. along (blocked_board ! 1) dir \<and>
           c = blocked_board[1 := shift (blocked_board ! 1) dir 1])"
    using h2 b by (intro exI[of _ "(cq', prev')"]) simp
  moreover have "(1::int) \<in> {1..2}" "(2::int) \<in> {1..2}" by simp_all
  ultimately show ?thesis using a h1 by (simp add: slide_move_def)
qed

section \<open>The frame of an expansion\<close>

text \<open>
  Claim C10. Every child state that one expansion step appends to the queue differs from
  its parent in exactly one block; that block keeps its id, kind, orientation and length and
  changes only the coordinate along its own axis (the column of a horizontal block, the row
  of a vertical one); all other blocks are unchanged. This holds for the entries appended
  by \<open>expand\<close> (OCaml) and for the lists appended by \<open>expandAll\<close> (C++).
\<close>

theorem expansion_moves_one_block_along_its_axis:
  assumes "expand vis level brd blocks q = Inr q'"
    and "expandAll cbrd blocks (cq, prev) = Inr (cq', prev')"
  shows "(\<exists>cs. q' = q @ cs \<and> (\<forall>e\<in>set cs. one_block_moved blocks (snd (snd e)))) \<and>
         (\<exists>cs. cq' = cq @ cs \<and> (\<forall>c\<in>set cs. one_block_moved blocks c))"
  using expand_frame[OF assms(1)] expandAll_frame[OF assms(2)] by simp

theorem expansion_moves_one_block_along_its_axis_witness:
  "\<exists>q' cq' prev'.
     expand {} 1 (the_board blocked_board) blocked_board [] = Inr q' \<and>
     expandAll (the_Board blocked_board) blocked_board ([], Map.empty) = Inr (cq', prev') \<and>
     (\<forall>e\<in>set q'. one_block_moved blocked_board (snd (snd e))) \<and>
     (\<forall>c\<in>set cq'. one_block_moved blocked_board c)"
proof -
  note p = placed_blocked_board
  have mb: "make_board blocked_board = Inr (the_board blocked_board)" by (rule placed_make_board[OF p])
  have rb: "renderBlocks blocked_board = Inr (the_Board blocked_board)" by (rule placed_renderBlocks[OF p])
  obtain q' where q': "expand {} 1 (the_board blocked_board) blocked_board [] = Inr q'"
    using expand_eq[OF p mb] by blast
  obtain cq' prev' where
    s': "expandAll (the_Board blocked_board) blocked_board ([], Map.empty) = Inr (cq', prev')"
    using expandAll_eq[OF p rb] by (metis surj_pair)
  from expansion_moves_one_block_along_its_axis[OF q' s']
  have "(\<forall>e\<in>set q'. one_block_moved blocked_board (snd (snd e))) \<and>
        (\<forall>c\<in>set cq'. one_block_moved blocked_board c)"
    by auto
  with q' s' show ?thesis by blast
qed

section \<open>Reachable states\<close>

text \<open>
  Claim C9. From an initial list whose blocks lie inside the 6 x 6 grid and do not overlap
  (each at least one tile long and of kind \<open>Block\<close> or \<open>Prisoner\<close>), every state reachable
  through generated moves, in either solver, again has every block inside the grid and no
  tile covered by two blocks.
\<close>

theorem reachable_states_stay_placed:
  assumes "placed init"
  shows "(ml_child\<^sup>*\<^sup>* init bs \<longrightarrow> placed bs) \<and> (cpp_child\<^sup>*\<^sup>* init bs \<longrightarrow> placed bs)"
proof
  show "ml_child\<^sup>*\<^sup>* init bs \<longrightarrow> placed bs"
  proof
    assume "ml_child\<^sup>*\<^sup>* init bs"
    then show "placed bs" by (induction rule: rtranclp_induct) (auto simp: assms ml_child_placed)
  qed
  show "cpp_child\<^sup>*\<^sup>* init bs \<longrightarrow> placed bs"
  proof
    assume "cpp_child\<^sup>*\<^sup>* init bs"
    then show "placed bs" by (induction rule: rtranclp_induct) (auto simp: assms cpp_child_placed)
  qed
qed

theorem reachable_states_stay_placed_witness:
  "placed blocked_board \<and>
   ml_child\<^sup>*\<^sup>* blocked_board (blocked_board[1 := shift (blocked_board ! 1) Down 2]) \<and>
   cpp_child\<^sup>*\<^sup>* blocked_board (blocked_board[1 := shift (blocked_board ! 1) Down 1]) \<and>
   placed (blocked_board[1 := shift (blocked_board ! 1) Down 2]) \<and>
   placed (blocked_board[1 := shift (blocked_board ! 1) Down 1])"
proof -
  note p = placed_blocked_board
  have mb: "make_board blocked_board = Inr (the_board blocked_board)" by (rule placed_make_board[OF p])
  have rb: "renderBlocks blocked_board = Inr (the_Board blocked_board)" by (rule placed_renderBlocks[OF p])
  have i: "1 < length blocked_board" by (simp add: blocked_board_def)
  have "slide_move (blocked_board ! 1) Down 2
          \<in> set (findBlockMoves (the_board blocked_board) (blocked_board ! 1))"
    unfolding generated_legal[OF mb i] using blocked_board_down2
    by (intro exI[of _ Down] exI[of _ 2]) simp
  then have "ml_child blocked_board (blocked_board[1 := shift (blocked_board ! 1) Down 2])"
    unfolding ml_child_def using mb i
    by (intro exI[of _ "the_board blocked_board"] exI[of _ 1]
          exI[of _ "slide_move (blocked_board ! 1) Down 2"]) (simp add: slide_move_def)
  then have 1: "ml_child\<^sup>*\<^sup>* blocked_board (blocked_board[1 := shift (blocked_board ! 1) Down 2])"
    by (rule r_into_rtranclp)
  have "can_step (the_Board blocked_board) (blocked_board ! 1) Down"
    unfolding can_step_iff[OF p rb i] by (rule blocked_board_down1)
  then have "blocked_board[1 := shift (blocked_board ! 1) Down 1]
          \<in> set (map fst (Children (the_Board blocked_board) blocked_board))"
    unfolding Children_set using i by blast
  then have "cpp_child blocked_board (blocked_board[1 := shift (blocked_board ! 1) Down 1])"
    unfolding cpp_child_def using rb expandAll_eq[OF p rb, of "([], Map.empty)"]
    by (intro exI[of _ "the_Board blocked_board"] exI[of _ "([], Map.empty)"]
          exI[of _ "foldl push_kid ([], Map.empty) (Children (the_Board blocked_board) blocked_board)"])
       (simp add: fst_foldl_push_kid)
  then have 2: "cpp_child\<^sup>*\<^sup>* blocked_board (blocked_board[1 := shift (blocked_board ! 1) Down 1])"
    by (rule r_into_rtranclp)
  from reachable_states_stay_placed[OF p, of "blocked_board[1 := shift (blocked_board ! 1) Down 2]"]
    reachable_states_stay_placed[OF p, of "blocked_board[1 := shift (blocked_board ! 1) Down 1]"]
    1 2 p
  show ?thesis by blast
qed

section \<open>Board keys\<close>

text \<open>
  Claim C5, as amended. For a list of blocks that lie inside the grid and do not overlap,
  the rendered tiles do not depend on the order of the list: a permutation of the list
  renders to the same C++ \<open>Board\<close> (whose comparison looks at the tiles only) and to the same
  OCaml \<open>_data\<close> matrix.
\<close>

theorem rendering_ignores_block_order:
  assumes "placed bs" "mset bs = mset bs'"
  shows "renderBlocks bs = Inr (the_Board bs) \<and> renderBlocks bs' = Inr (the_Board bs) \<and>
         make_board bs = Inr (the_board bs) \<and> make_board bs' = Inr (the_board bs') \<and>
         brd_data (the_board bs') = brd_data (the_board bs)"
proof -
  have p': "placed bs'" by (rule placed_perm[OF assms])
  have "the_Board bs' = the_Board bs"
    by (rule Board_ext) (simp_all add: the_Board_props[OF p'] the_Board_props[OF assms(1)]
        occupant_perm[OF assms])
  moreover have "brd_data (the_board bs') = brd_data (the_board bs)"
    by (rule grid_ext) (simp_all add: the_board_props[OF p'] the_board_props[OF assms(1)]
        occupant_perm[OF assms])
  ultimately show ?thesis
    using placed_renderBlocks[OF p'] placed_renderBlocks[OF assms(1)]
      placed_make_board[OF p'] placed_make_board[OF assms(1)] by simp
qed

theorem rendering_ignores_block_order_witness:
  "placed blocked_board \<and> mset blocked_board = mset (rev blocked_board) \<and>
   renderBlocks (rev blocked_board) = renderBlocks blocked_board \<and>
   brd_data (the_board (rev blocked_board)) = brd_data (the_board blocked_board)"
  using rendering_ignores_block_order[OF placed_blocked_board, of "rev blocked_board"]
    placed_blocked_board by simp

text \<open>
  Claim C5 as stated fails on the OCaml board: \<open>make_board\<close> also records the hash of every
  block in list order, and the structural comparison of the hash tables sees it, so the two
  orderings of the same two blocks are different keys.
\<close>

theorem board_key_depends_on_block_order:
  "mset blocked_board = mset (rev blocked_board) \<and>
   make_board blocked_board \<noteq> make_board (rev blocked_board)"
proof -
  have "make_board blocked_board \<noteq> make_board (rev blocked_board)" by code_simp
  then show ?thesis by simp
qed

section \<open>Malformed block lists\<close>

text \<open>
  Claim C6, as amended. Neither solver validates its input. Two malformations still stop a
  run before any state is expanded: a list without a prisoner block fails in the first
  iteration, at the search for the prisoner (OCaml \<open>Not_found\<close>, the C++ \<open>assert\<close>), provided the
  blocks render; and in the OCaml solver a block that is not inside the grid makes the first
  \<open>make_board\<close> raise \<open>Invalid_argument\<close>, whatever the fuel.
\<close>

theorem solve_without_prisoner_or_outside_grid:
  assumes "\<forall>b\<in>set bs. blk_kind b \<noteq> Prisoner"
  shows "((\<forall>b\<in>set bs. block_in_grid b) \<longrightarrow>
            solveBoard (Suc n) bs = Some (Failed Not_found) \<and>
            SolveBoard (Suc n) bs = Some (Aborted Assertion_failed)) \<and>
         (\<not> (\<forall>b\<in>set cs. block_in_grid b) \<longrightarrow> solveBoard n cs = Some (Failed Invalid_argument))"
proof (intro conjI impI)
  assume ig: "\<forall>b\<in>set bs. block_in_grid b"
  have np: "find (\<lambda>blk. blk_kind blk = Prisoner) bs = None" using assms by (simp add: find_None_set)
  from make_board_ok[OF ig] obtain brd where brd: "make_board bs = Inr brd" by blast
  show "solveBoard (Suc n) bs = Some (Failed Not_found)"
    using brd np by (simp add: solveBoard_def initial_state_def step_def)
  from renderBlocks_ok[OF ig] obtain cbrd where cbrd: "renderBlocks bs = Inr cbrd" by blast
  show "SolveBoard (Suc n) bs = Some (Aborted Assertion_failed)"
    using cbrd np by (simp add: SolveBoard_def Step_def)
next
  assume "\<not> (\<forall>b\<in>set cs. block_in_grid b)"
  then show "solveBoard n cs = Some (Failed Invalid_argument)"
    using make_board_err[of cs] by (simp add: solveBoard_def)
qed

theorem solve_without_prisoner_or_outside_grid_witness:
  "find (\<lambda>b. blk_kind b = Prisoner) no_prisoner_board = None \<and>
   list_all block_in_grid no_prisoner_board \<and>
   \<not> list_all block_in_grid outside_board \<and>
   solveBoard (Suc 0) no_prisoner_board = Some (Failed Not_found) \<and>
   SolveBoard (Suc 0) no_prisoner_board = Some (Aborted Assertion_failed) \<and>
   solveBoard 0 outside_board = Some (Failed Invalid_argument)"
proof -
  have 1: "\<forall>b\<in>set no_prisoner_board. blk_kind b \<noteq> Prisoner" by (simp add: no_prisoner_board_def)
  have 2: "\<forall>b\<in>set no_prisoner_board. block_in_grid b" by code_simp
  have 3: "\<not> (\<forall>b\<in>set outside_board. block_in_grid b)" by code_simp
  from solve_without_prisoner_or_outside_grid[OF 1, of 0 outside_board] 1 2 3
  show ?thesis by (simp add: list_all_iff find_None_set)
qed

text \<open>
  Claim C6 as stated fails: a list in which a vertical block lies across the prisoner is not
  rejected. Both solvers render it (the later block overwrites the tile) and return a search
  result.
\<close>

theorem overlapping_blocks_are_searched:
  "\<not> distinct (concat (map tiles overlapping_board)) \<and>
   solveBoard 2 overlapping_board = Some (Solved [overlapping_board] []) \<and>
   SolveBoard 2 overlapping_board = Some (Escaped [overlapping_board] [])"
  by code_simp

section \<open>The returned path\<close>



section \<open>Termination\<close>

text \<open>
  Claim C7 fails for the C++ solver on \<open>interlocked_board\<close>, a valid configuration
  (\<open>valid_interlocked_board\<close>): \<open>SolveBoard\<close> stops with an empty queue after 58 states
  were taken from it, although the slides of
  \<open>interlocked_solution\<close> lead to a state that passes the win test of either solver; the
  OCaml solver, given enough iterations, returns a solution. The C++ \<open>visited\<close> set compares
  the tiles only, so a state never examined is skipped when another arrangement of the
  blocks with the same tiles was examined before.
\<close>

theorem cpp_search_gives_up_on_solvable_board:
  "SolveBoard 60 interlocked_board = Some Exhausted \<and>
   map_option Winning (run_slides interlocked_board interlocked_solution) = Some True \<and>
   map_option winning (run_slides interlocked_board interlocked_solution) = Some True \<and>
   (\<exists>n snaps moves. solveBoard n interlocked_board = Some (Solved snaps moves))"
  using SolveBoard_interlocked_board interlocked_board_Solvable interlocked_board_solvable
    solveBoard_finds_interlocked_board
  by (intro conjI)

text \<open>
  What holds of termination. For every valid initial configuration both solvers terminate:
  with enough iterations \<open>solveBoard\<close> returns a solution or \<open>NoSolution\<close>, and \<open>SolveBoard\<close>
  returns a solution or stops with an empty queue; neither ends in an error. When
  \<open>solveBoard\<close> reports \<open>NoSolution\<close>, no sequence of legal slides from the initial
  configuration reaches a winning state.
\<close>

theorem solve_terminates:
  assumes "valid_config init"
  shows "(\<exists>n r. solveBoard n init = Some r \<and> (r = NoSolution \<or> (\<exists>snaps moves. r = Solved snaps moves))) \<and>
         (\<exists>n r. SolveBoard n init = Some r \<and> (r = Exhausted \<or> (\<exists>snaps moves. r = Escaped snaps moves))) \<and>
         (\<forall>n sl w. solveBoard n init = Some NoSolution \<and> run_slides init sl = Some w \<longrightarrow> \<not> winning w)"
proof (intro conjI allI impI)
  show "\<exists>n r. solveBoard n init = Some r \<and> (r = NoSolution \<or> (\<exists>snaps moves. r = Solved snaps moves))"
    using solveLoop_terminates[OF assms ml_inv_initial] by (simp add: solveBoard_loop[OF assms])
  show "\<exists>n r. SolveBoard n init = Some r \<and> (r = Exhausted \<or> (\<exists>snaps moves. r = Escaped snaps moves))"
    using SolveLoop_terminates[OF assms cpp_ok_initial[OF assms]] by (simp add: SolveBoard_loop[OF assms])
next
  fix n sl w assume "solveBoard n init = Some NoSolution \<and> run_slides init sl = Some w"
  then show "\<not> winning w"
    using solveLoop_exhausted[OF assms ml_inv_initial ml_bfs_initial, of n sl w]
    by (simp add: solveBoard_loop[OF assms])
qed

theorem solve_terminates_witness:
  "valid_config stuck_board \<and>
   solveBoard 20 stuck_board = Some NoSolution \<and>
   SolveBoard 20 stuck_board = Some Exhausted \<and>
   run_slides stuck_board [(0, Right, 3)] = Some (stuck_board[0 := shift (stuck_board ! 0) Right 3]) \<and>
   \<not> winning (stuck_board[0 := shift (stuck_board ! 0) Right 3]) \<and>
   (\<exists>n r. solveBoard n stuck_board = Some r \<and> (r = NoSolution \<or> (\<exists>snaps moves. r = Solved snaps moves))) \<and>
   (\<exists>n r. SolveBoard n stuck_board = Some r \<and> (r = Exhausted \<or> (\<exists>snaps moves. r = Escaped snaps moves)))"
proof -
  note th = solve_terminates[OF valid_stuck_board]
  from th have a: "\<exists>n r. solveBoard n stuck_board = Some r \<and> (r = NoSolution \<or> (\<exists>snaps moves. r = Solved snaps moves))"
    by blast
  from th have b: "\<exists>n r. SolveBoard n stuck_board = Some r \<and> (r = Exhausted \<or> (\<exists>snaps moves. r = Escaped snaps moves))"
    by blast
  from th have "\<forall>n sl w. solveBoard n stuck_board = Some NoSolution \<and> run_slides stuck_board sl = Some w \<longrightarrow> \<not> winning w"
    by blast
  with solveBoard_stuck_board slide_stuck_board
  have c: "\<not> winning (stuck_board[0 := shift (stuck_board ! 0) Right 3])" by blast
  from valid_stuck_board solveBoard_stuck_board SolveBoard_stuck_board slide_stuck_board a b c
  show ?thesis by blast
qed

section \<open>The length of the returned path\<close>

text \<open>
  Claim C1, as amended. If the OCaml solver \<open>solveBoard\<close> returns a solution for a valid
  initial configuration, then its moves are as many as the slides of a sequence of legal
  slides (each of any distance) that leads from the initial configuration to the last
  snapshot, which is winning, and no sequence of legal slides that reaches a winning state
  is shorter than the returned list of moves.
\<close>

theorem ocaml_solution_is_shortest:
  assumes "valid_config init" "solveBoard n init = Some (Solved snaps moves)"
  shows "(\<exists>sl. length sl = length moves \<and> run_slides init sl = Some (last snaps) \<and> winning (last snaps)) \<and>
         (\<forall>sl w. run_slides init sl = Some w \<and> winning w \<longrightarrow> length moves \<le> length sl)"
proof
  from solveBoard_trail[OF assms] obtain prev lvl mv bs where
    t: "trail init prev lvl mv bs snaps moves" and w: "winning bs" by blast
  from trail_run_slides[OF t] trail_shape[OF t] w
  show "\<exists>sl. length sl = length moves \<and> run_slides init sl = Some (last snaps) \<and> winning (last snaps)"
    by auto
  show "\<forall>sl w. run_slides init sl = Some w \<and> winning w \<longrightarrow> length moves \<le> length sl"
    using solveLoop_minimal[OF assms(1) ml_inv_initial ml_bfs_initial] assms(2)
    by (simp add: solveBoard_loop[OF assms(1)])
qed

theorem ocaml_solution_is_shortest_witness:
  "valid_config blocked_board \<and>
   solveBoard 20 blocked_board =
     Some (Solved [blocked_board, blocked_board[1 := shift (blocked_board ! 1) Down 2]]
                  [\<lparr>mv_blockId = 1, mv_steps = 2, mv_direction = Down\<rparr>]) \<and>
   run_slides blocked_board [(1, Up, 1), (1, Down, 3)]
     = Some (blocked_board[1 := shift (blocked_board ! 1) Down 2]) \<and>
   winning (blocked_board[1 := shift (blocked_board ! 1) Down 2]) \<and>
   length [\<lparr>mv_blockId = 1, mv_steps = 2, mv_direction = Down\<rparr>]
     \<le> length [(1::nat, Up, 1::int), (1, Down, 3)]"
proof -
  from ocaml_solution_is_shortest[OF valid_blocked_board solveBoard_blocked_board]
  have "\<forall>sl w. run_slides blocked_board sl = Some w \<and> winning w \<longrightarrow>
          length [\<lparr>mv_blockId = 1, mv_steps = 2, mv_direction = Down\<rparr>] \<le> length sl" by blast
  then have "length [\<lparr>mv_blockId = 1, mv_steps = 2, mv_direction = Down\<rparr>]
     \<le> length [(1::nat, Up, 1::int), (1, Down, 3)]"
    using detour_blocked_board winning_blocked_board by blast
  then show ?thesis
    using valid_blocked_board solveBoard_blocked_board detour_blocked_board winning_blocked_board
    by blast
qed

text \<open>
  Claim C1 as stated fails for the C++ solver \<open>SolveBoard\<close>, whose moves are steps of one
  tile: on the blocked board it returns two moves, while the single slide of the blocking
  block two tiles down already reaches a winning state.
\<close>

theorem cpp_solution_counts_tiles_not_slides:
  "valid_config blocked_board \<and>
   SolveBoard 20 blocked_board =
     Some (Escaped [blocked_board, blocked_board[1 := shift (blocked_board ! 1) Down 1],
                    blocked_board[1 := shift (blocked_board ! 1) Down 2]]
                   [\<lparr>cm_blockId = 1, cm_move = Down\<rparr>, \<lparr>cm_blockId = 1, cm_move = Down\<rparr>]) \<and>
   run_slides blocked_board [(1, Down, 2)]
     = Some (blocked_board[1 := shift (blocked_board ! 1) Down 2]) \<and>
   Winning (blocked_board[1 := shift (blocked_board ! 1) Down 2]) \<and>
   length [(1::nat, Down, 2::int)]
     < length [\<lparr>cm_blockId = 1, cm_move = Down\<rparr>, \<lparr>cm_blockId = 1, cm_move = Down\<rparr>]"
  using valid_blocked_board SolveBoard_blocked_board direct_blocked_board Winning_blocked_board
  by simp

section \<open>First arrivals are kept\<close>

text \<open>
  Claim C8. Along the iterations of either search loop the store \<open>previousMoves\<close> only
  grows: an entry present after some iteration is present, with the same move, after every
  later iteration, so the move that first reached a board is never overwritten; and the
  board expanded by an iteration is not expanded again by any later iteration. For the
  OCaml loop the iterations start from the initial state of \<open>solveBoard\<close>; for the C++ loop
  they start from any state. In the C++ store, recording an arrival for a board that is
  already present changes nothing.
\<close>

theorem first_arrival_is_kept:
  "(ml_run i (initial_state blocks brd) = Some si \<and> ml_run (Suc k) si = Some sj \<longrightarrow>
      ss_previousMoves si \<subseteq>\<^sub>m ss_previousMoves sj \<and>
      (\<forall>b. ml_expands si = Some b \<longrightarrow> ml_expands sj \<noteq> Some b)) \<and>
   (cpp_run (Suc k') ci = Some cj \<longrightarrow>
      cs_previousMoves ci \<subseteq>\<^sub>m cs_previousMoves cj \<and>
      (\<forall>b. cpp_expands ci = Some b \<longrightarrow> cpp_expands cj \<noteq> Some b)) \<and>
   (\<forall>b mv mv'. cs_previousMoves ci b = Some mv \<longrightarrow>
      map_insert (cs_previousMoves ci) b mv' = cs_previousMoves ci)"
proof (intro conjI impI)
  assume h: "ml_run i (initial_state blocks brd) = Some si \<and> ml_run (Suc k) si = Some sj"
  from ml_run_keys[OF ml_keys_initial] h have "ml_keys si" by blast
  from ml_run_once[OF this] h
  show "ss_previousMoves si \<subseteq>\<^sub>m ss_previousMoves sj" "\<forall>b. ml_expands si = Some b \<longrightarrow> ml_expands sj \<noteq> Some b"
    by blast+
next
  assume h: "cpp_run (Suc k') ci = Some cj"
  from cpp_run_once[OF h]
  show "cs_previousMoves ci \<subseteq>\<^sub>m cs_previousMoves cj" "\<forall>b. cpp_expands ci = Some b \<longrightarrow> cpp_expands cj \<noteq> Some b"
    by blast+
next
  show "\<forall>b mv mv'. cs_previousMoves ci b = Some mv \<longrightarrow>
      map_insert (cs_previousMoves ci) b mv' = cs_previousMoves ci"
    by (simp add: map_insert_def)
qed

theorem first_arrival_is_kept_witness:
  "(\<exists>sj. ml_run (Suc 1) (initial_state blocked_board (the_board blocked_board)) = Some sj \<and>
         ss_previousMoves (initial_state blocked_board (the_board blocked_board)) \<subseteq>\<^sub>m ss_previousMoves sj \<and>
         ml_expands (initial_state blocked_board (the_board blocked_board)) = Some (the_board blocked_board) \<and>
         ml_expands sj \<noteq> Some (the_board blocked_board)) \<and>
   (\<exists>cj. cpp_run (Suc 1) (cpp_initial blocked_board) = Some cj \<and>
         cs_previousMoves (cpp_initial blocked_board) \<subseteq>\<^sub>m cs_previousMoves cj \<and>
         cpp_expands (cpp_initial blocked_board) = Some (the_Board blocked_board) \<and>
         cpp_expands cj \<noteq> Some (the_Board blocked_board)) \<and>
   cs_previousMoves (cpp_initial blocked_board) (the_Board blocked_board)
     = Some \<lparr>cm_blockId = - 1, cm_move = Left\<rparr> \<and>
   map_insert (cs_previousMoves (cpp_initial blocked_board)) (the_Board blocked_board)
       \<lparr>cm_blockId = 1, cm_move = Down\<rparr>
     = cs_previousMoves (cpp_initial blocked_board)"
proof -
  let ?S = "initial_state blocked_board (the_board blocked_board)"
  let ?C = "cpp_initial blocked_board"
  from ml_run_blocked_board obtain sj where sj: "ml_run (Suc 1) ?S = Some sj"
    by (auto split: option.splits)
  from cpp_run_blocked_board obtain cj where cj: "cpp_run (Suc 1) ?C = Some cj"
    by (auto split: option.splits)
  have s0: "ml_run 0 ?S = Some ?S" by simp
  have p: "cs_previousMoves ?C (the_Board blocked_board) = Some \<lparr>cm_blockId = - 1, cm_move = Left\<rparr>"
    by (simp add: cpp_initial_def)
  note th = first_arrival_is_kept[of 0 blocked_board "the_board blocked_board" ?S 1 sj 1 ?C cj]
  from th[THEN conjunct1, THEN mp, OF conjI[OF s0 sj]] ml_expands_blocked_board
  have a: "ss_previousMoves ?S \<subseteq>\<^sub>m ss_previousMoves sj" "ml_expands sj \<noteq> Some (the_board blocked_board)"
    by blast+
  from th[THEN conjunct2, THEN conjunct1, THEN mp, OF cj] cpp_expands_blocked_board
  have b: "cs_previousMoves ?C \<subseteq>\<^sub>m cs_previousMoves cj" "cpp_expands cj \<noteq> Some (the_Board blocked_board)"
    by blast+
  from th[THEN conjunct2, THEN conjunct2] p
  have c: "map_insert (cs_previousMoves ?C) (the_Board blocked_board) \<lparr>cm_blockId = 1, cm_move = Down\<rparr>
             = cs_previousMoves ?C" by blast
  from sj a ml_expands_blocked_board have A: "\<exists>sj. ml_run (Suc 1) ?S = Some sj \<and>
         ss_previousMoves ?S \<subseteq>\<^sub>m ss_previousMoves sj \<and>
         ml_expands ?S = Some (the_board blocked_board) \<and>
         ml_expands sj \<noteq> Some (the_board blocked_board)" by blast
  from cj b cpp_expands_blocked_board have B: "\<exists>cj. cpp_run (Suc 1) ?C = Some cj \<and>
         cs_previousMoves ?C \<subseteq>\<^sub>m cs_previousMoves cj \<and>
         cpp_expands ?C = Some (the_Board blocked_board) \<and>
         cpp_expands cj \<noteq> Some (the_Board blocked_board)" by blast
  from A B p c show ?thesis by blast
qed

end
